theory Spec2Isabelle
  imports Main "HOL-Library.Sublist" "HOL-Library.Word"
begin

section \<open>Bytes, C strings and the memory primitives of \<open>fs.c\<close>\<close>

text \<open>
  A byte of a log file is a \<open>char\<close>. A \<open>const char *\<close> argument is the C string that
  starts at the pointer: the bytes up to, and without, the first NUL byte.
\<close>

type_synonym byte = char

abbreviation NL :: byte where "NL \<equiv> CHR 0x0A"
abbreviation NUL :: byte where "NUL \<equiv> CHR 0x00"

definition cstr :: "byte list \<Rightarrow> string" where
  "cstr bs = takeWhile (\<lambda>b. b \<noteq> NUL) bs"

text \<open>The C string that the pointer \<open>b + p\<close> denotes.\<close>

definition cstring :: "byte list \<Rightarrow> nat \<Rightarrow> string" where
  "cstring b p = cstr (drop p b)"

text \<open>\<open>memchr(b + s, c, n)\<close>: the index in \<open>b\<close> of the first \<open>c\<close> among the \<open>n\<close> bytes
  from \<open>s\<close>, or \<open>None\<close> for the null pointer.\<close>

definition memchr :: "byte list \<Rightarrow> nat \<Rightarrow> byte \<Rightarrow> nat \<Rightarrow> nat option" where
  "memchr b s c n =
     (let seg = take n (drop s b)
      in if c \<in> set seg then Some (s + length (takeWhile (\<lambda>x. x \<noteq> c) seg)) else None)"

text \<open>\<open>memmove(b, b + src, n)\<close>: the \<open>n\<close> bytes from \<open>src\<close> copied to the front.\<close>

definition memmove :: "byte list \<Rightarrow> nat \<Rightarrow> nat \<Rightarrow> byte list" where
  "memmove b src n = take n (drop src b) @ drop n b"

text \<open>What \<open>read\<close> does to the buffer: the bytes \<open>bs\<close> stored from offset \<open>off\<close>.\<close>

definition store :: "byte list \<Rightarrow> nat \<Rightarrow> byte list \<Rightarrow> byte list" where
  "store b off bs = take off b @ bs @ drop (off + length bs) b"

section \<open>\<open>ratelimitspp_process\<close>\<close>

text \<open>
  \<open>strstr(h, n)\<close> for non-null arguments: the rest of \<open>h\<close> from the first occurrence of
  \<open>n\<close>, or \<open>None\<close> for the null pointer. \<open>strstr_null\<close> is \<open>strstr\<close> on a pointer
  that may be null.
\<close>

fun strstr :: "string \<Rightarrow> string \<Rightarrow> string option" where
  "strstr [] n = (if n = [] then Some [] else None)"
| "strstr (c # cs) n = (if prefix n (c # cs) then Some (c # cs) else strstr cs n)"

text \<open>
  What a call can do other than return: \<open>strstr\<close> on a null pointer, and the overflow
  of an \<open>int\<close> counter, are undefined behaviour. The counters are C \<open>int\<close>s, 32 bits.
\<close>

datatype undefined_behaviour = Null_pointer | Signed_overflow

record ratelimitspp_statistics =
  conn_timeout :: "32 word"
  error :: "32 word"
  ratelimited :: "32 word"

definition incr :: "32 word \<Rightarrow> undefined_behaviour + 32 word" where
  "incr x = (if sint x = 2 ^ 31 - 1 then Inl Signed_overflow else Inr (x + 1))"

text \<open>
  The source of \<open>ratelimitspp_process\<close> lacks one closing brace; the braces it has close
  the inner branches, so the block that is left open is that of the first \<open>if\<close> or of the
  function, and both readings give the function below. In the branch without
  \<open>Error:\<close> the pointer \<open>ptr\<close> has just been assigned the null result of \<open>strstr\<close>,
  and is passed to \<open>strstr\<close> again.
\<close>

definition strstr_null :: "string option \<Rightarrow> string \<Rightarrow> undefined_behaviour + string option" where
  "strstr_null h n = (case h of None \<Rightarrow> Inl Null_pointer | Some s \<Rightarrow> Inr (strstr s n))"

definition ratelimitspp_process ::
  "string \<Rightarrow> ratelimitspp_statistics \<Rightarrow> undefined_behaviour + ratelimitspp_statistics" where
  "ratelimitspp_process line data =
     (case strstr line ''ratelimitspp:'' of
        Some p \<Rightarrow>
          (let ptr = strstr p ''Error:'' in
           case ptr of
             Some q \<Rightarrow>
               (if strstr q ''Receiving data failed, connection timed out.'' \<noteq> None
                then map_sum id (\<lambda>v. data\<lparr>conn_timeout := v\<rparr>) (incr (conn_timeout data))
                else map_sum id (\<lambda>v. data\<lparr>error := v\<rparr>) (incr (error data)))
           | None \<Rightarrow>
               (case strstr_null ptr '';Result:NOK'' of
                  Inl u \<Rightarrow> Inl u
                | Inr r \<Rightarrow>
                    (if r \<noteq> None
                     then map_sum id (\<lambda>v. data\<lparr>ratelimited := v\<rparr>) (incr (ratelimited data))
                     else Inr data)))
      | None \<Rightarrow> Inr data)"

lemma strstr_None_iff: "strstr h n = None \<longleftrightarrow> \<not> sublist n h"
  by (induction h) (auto simp: sublist_Cons_right)

text \<open>
  Claim C9. A line that does not contain the marker \<open>ratelimitspp:\<close> leaves every counter
  of the accumulator as it was, and the call returns without error.
\<close>

theorem unmatched_line_ignored:
  assumes "\<not> sublist ''ratelimitspp:'' line"
  shows "ratelimitspp_process line data = Inr data"
  using assms by (simp add: ratelimitspp_process_def strstr_None_iff [symmetric])

theorem unmatched_line_ignored_witness:
  "ratelimitspp_process ''@400000 delivery 7: success: did_1+0+0/''
     \<lparr>conn_timeout = 1, error = 2, ratelimited = 3\<rparr> =
   Inr \<lparr>conn_timeout = 1, error = 2, ratelimited = 3\<rparr>"
proof -
  have "\<not> sublist ''ratelimitspp:'' ''@400000 delivery 7: success: did_1+0+0/''"
    by code_simp
  then show ?thesis
    by (rule unmatched_line_ignored)
qed

section \<open>The operating system as far as \<open>fs.c\<close> and \<open>qmail.plugin.c\<close> use it\<close>

text \<open>
  Directory entries name inodes, inodes hold bytes, and the descriptor table maps a
  descriptor to an inode and a file offset. \<open>open\<close> takes the lowest free descriptor.
  What one call of \<open>read\<close> will do is the environment's choice: it may fail with an
  error number, or deliver at most so many bytes (a short read); the choices of the
  coming calls are the list \<open>script\<close>, and past its end a read delivers all it can.
\<close>

datatype errno = EAGAIN | EIO | EBADF | ENOENT

datatype read_outcome = Deliver nat | Fail errno

record sys =
  names :: "string \<rightharpoonup> nat"
  contents :: "nat \<rightharpoonup> byte list"
  fds :: "(nat \<times> nat) option list"
  script :: "read_outcome list"
  last_errno :: "errno option"

definition fd_lookup :: "sys \<Rightarrow> int \<Rightarrow> (nat \<times> nat) option" where
  "fd_lookup s fd =
     (if 0 \<le> fd \<and> nat fd < length (fds s) then fds s ! nat fd else None)"

definition file_bytes :: "sys \<Rightarrow> nat \<Rightarrow> byte list" where
  "file_bytes s ino = (case contents s ino of None \<Rightarrow> [] | Some bs \<Rightarrow> bs)"

text \<open>The bytes of the open file from the descriptor's offset on.\<close>

definition unread :: "sys \<Rightarrow> int \<Rightarrow> byte list" where
  "unread s fd =
     (case fd_lookup s fd of None \<Rightarrow> [] | Some (ino, off) \<Rightarrow> drop off (file_bytes s ino))"

text \<open>\<open>read(fd, ., count)\<close>: the return value, the bytes stored, the system after.\<close>

definition sys_read :: "sys \<Rightarrow> int \<Rightarrow> nat \<Rightarrow> int \<times> byte list \<times> sys" where
  "sys_read s fd count =
     (case fd_lookup s fd of
        None \<Rightarrow> (- 1, [], s\<lparr>last_errno := Some EBADF\<rparr>)
      | Some (ino, off) \<Rightarrow>
          (case script s of
             Fail e # rest \<Rightarrow> (- 1, [], s\<lparr>script := rest, last_errno := Some e\<rparr>)
           | oc \<Rightarrow>
               (let limit = (case oc of Deliver k # rest \<Rightarrow> min k count | _ \<Rightarrow> count);
                    bs = take limit (drop off (file_bytes s ino))
                in (int (length bs), bs,
                    s\<lparr>fds := (fds s)[nat fd := Some (ino, off + length bs)],
                      script := tl oc\<rparr>))))"

text \<open>The coming reads all succeed: none fails and none is cut to no bytes.\<close>

definition reads_succeed :: "read_outcome list \<Rightarrow> bool" where
  "reads_succeed sc = (\<forall>oc \<in> set sc. case oc of Deliver k \<Rightarrow> 0 < k | Fail e \<Rightarrow> False)"

fun free_slot :: "(nat \<times> nat) option list \<Rightarrow> nat" where
  "free_slot [] = 0"
| "free_slot (None # t) = 0"
| "free_slot (Some e # t) = Suc (free_slot t)"

text \<open>\<open>open(path, O_RDONLY)\<close>: a new descriptor at offset 0, or -1.\<close>

definition sys_open :: "sys \<Rightarrow> string \<Rightarrow> int \<times> sys" where
  "sys_open s path =
     (case names s path of
        None \<Rightarrow> (- 1, s\<lparr>last_errno := Some ENOENT\<rparr>)
      | Some ino \<Rightarrow>
          (let n = free_slot (fds s)
           in (int n,
               s\<lparr>fds := (if n < length (fds s) then (fds s)[n := Some (ino, 0)]
                          else fds s @ [Some (ino, 0)])\<rparr>)))"

definition sys_close :: "sys \<Rightarrow> int \<Rightarrow> int \<times> sys" where
  "sys_close s fd =
     (case fd_lookup s fd of
        None \<Rightarrow> (- 1, s\<lparr>last_errno := Some EBADF\<rparr>)
      | Some e \<Rightarrow> (0, s\<lparr>fds := (fds s)[nat fd := None]\<rparr>))"

text \<open>\<open>lseek(fd, 0, SEEK_END)\<close>.\<close>

definition sys_lseek_end :: "sys \<Rightarrow> int \<Rightarrow> int \<times> sys" where
  "sys_lseek_end s fd =
     (case fd_lookup s fd of
        None \<Rightarrow> (- 1, s\<lparr>last_errno := Some EBADF\<rparr>)
      | Some (ino, off) \<Rightarrow>
          (int (length (file_bytes s ino)),
           s\<lparr>fds := (fds s)[nat fd := Some (ino, length (file_bytes s ino))]\<rparr>))"

section \<open>The data of a watch\<close>

text \<open>
  The headers \<open>fs.h\<close>, \<open>callbacks.h\<close> and \<open>err.h\<close> are not among the sources. The
  enumerations and records below list the enumerators and members that \<open>fs.c\<close> and
  \<open>qmail.plugin.c\<close> use, with the argument lists of the call sites. The capacity of the
  line buffer, \<open>sizeof watch->buf\<close>, is the length of the list \<open>buf\<close>.
\<close>

datatype nd_err = ND_SUCCESS | ND_FILE | ND_INOTIFY | ND_ALLOC

datatype skip_state = DO_NOT_SKIP | SKIP_THE_REST

datatype watch_type = WATCH_LOG_FILE | WATCH_QUEUE

text \<open>The collector's table of functions; \<open>'d\<close> is its accumulator, \<open>'o\<close> the sink
  (standard output). A \<open>char *\<close> that may be null is a \<open>string option\<close>: \<open>process\<close> takes
  the line, or \<open>None\<close> for the null pointer, and the queue watch has no names.
  \<open>init\<close> is \<open>None\<close> when the allocation fails.\<close>

record ('d, 'o) stat_func =
  init :: "'d option"
  print_hdr :: "string option \<Rightarrow> 'o \<Rightarrow> int \<times> 'o"
  print :: "string option \<Rightarrow> 'd \<Rightarrow> nat \<Rightarrow> 'o \<Rightarrow> int \<times> 'o"
  process :: "string option \<Rightarrow> 'd \<Rightarrow> 'd"
  postprocess :: "('d \<Rightarrow> 'd) option"
  clear :: "'d \<Rightarrow> 'd"

record ('d, 'o) fs_watch =
  wtype :: watch_type
  dir_name :: "string option"
  file_name :: "string option"
  watch_dir :: int
  fd :: int
  buf :: "byte list"
  buffered :: nat
  skip :: skip_state
  func :: "('d, 'o) stat_func"
  data :: 'd
  time :: nat

section \<open>\<open>read_log_file\<close>\<close>

text \<open>
  The inner \<open>for (;;)\<close> of \<open>read_log_file\<close>: \<open>line\<close> is the offset of the pointer
  \<open>line\<close> in the buffer and \<open>ret\<close> the number of valid bytes. The pointer never passes
  the valid bytes, so \<open>ret - line\<close> is the source's \<open>ret - (line - watch->buf)\<close>.
\<close>

function scan_lines :: "('d, 'o) fs_watch \<Rightarrow> nat \<Rightarrow> nat \<Rightarrow> ('d, 'o) fs_watch" where
  "scan_lines w line ret =
     (let max_line_length = ret - line in
      case memchr (buf w) line NL max_line_length of
        Some e \<Rightarrow>
          (let w1 = w\<lparr>buf := (buf w)[e := NUL]\<rparr>;
               w2 = (if skip w1 = DO_NOT_SKIP
                     then w1\<lparr>data := process (func w1) (Some (cstring (buf w1) line)) (data w1)\<rparr>
                     else w1\<lparr>skip := DO_NOT_SKIP\<rparr>)
           in scan_lines w2 (e + 1) ret)
      | None \<Rightarrow>
          (if 0 < max_line_length \<and> max_line_length < length (buf w)
           then w\<lparr>buffered := max_line_length,
                  buf := memmove (buf w) line max_line_length\<rparr>
           else if max_line_length = length (buf w)
           then (let w1 = w\<lparr>buf := (buf w)[length (buf w) - 1 := NUL]\<rparr>;
                     w2 = (if skip w1 = DO_NOT_SKIP
                           then w1\<lparr>data := process (func w1) (Some (cstring (buf w1) line)) (data w1)\<rparr>
                           else w1)
                 in w2\<lparr>skip := SKIP_THE_REST\<rparr>)
           else w))"
  by pat_completeness auto

lemma takeWhile_hit:
  "c \<in> set xs \<Longrightarrow>
     length (takeWhile (\<lambda>x. x \<noteq> c) xs) < length xs \<and>
     xs ! length (takeWhile (\<lambda>x. x \<noteq> c) xs) = c"
  by (induction xs) auto

lemma memchr_Some_bounds:
  "memchr b s c n = Some e \<Longrightarrow> s \<le> e \<and> e < s + n \<and> e < length b \<and> b ! e = c"
proof -
  assume h: "memchr b s c n = Some e"
  define seg where "seg = take n (drop s b)"
  define k where "k = length (takeWhile (\<lambda>x. x \<noteq> c) seg)"
  from h have mem: "c \<in> set seg" and e: "e = s + k"
    by (auto simp: memchr_def Let_def seg_def k_def split: if_splits)
  from takeWhile_hit [OF mem] have k: "k < length seg" and hit: "seg ! k = c"
    by (auto simp: k_def)
  from k have kn: "k < n" and kb: "s + k < length b"
    by (auto simp: seg_def)
  from kn have "seg ! k = drop s b ! k" by (simp add: seg_def)
  also have "\<dots> = b ! (s + k)"
    using kb by simp
  finally have "b ! (s + k) = c" using hit by simp
  with kn kb e show ?thesis by simp
qed

termination scan_lines
  by (relation "measure (\<lambda>(w, line, ret). ret - line)")
     (auto dest!: memchr_Some_bounds)

declare scan_lines.simps [simp del]

lemma found_update:
  "(if skip w = DO_NOT_SKIP then w\<lparr>buf := b, data := d\<rparr> else w\<lparr>buf := b, skip := DO_NOT_SKIP\<rparr>) =
   w\<lparr>buf := b, skip := DO_NOT_SKIP, data := (if skip w = DO_NOT_SKIP then d else data w)\<rparr>"
  by (cases "skip w = DO_NOT_SKIP") (auto intro!: fs_watch.equality)

lemma scan_lines_Some:
  assumes "memchr (buf w) line NL (ret - line) = Some e"
  shows "scan_lines w line ret =
         scan_lines (w\<lparr>buf := (buf w)[e := NUL], skip := DO_NOT_SKIP,
                       data := (if skip w = DO_NOT_SKIP
                                then process (func w) (Some (cstring ((buf w)[e := NUL]) line)) (data w)
                                else data w)\<rparr>) (e + 1) ret"
proof -
  have "scan_lines w line ret =
        scan_lines (if skip w = DO_NOT_SKIP
          then w\<lparr>buf := (buf w)[e := NUL],
                 data := process (func w) (Some (cstring ((buf w)[e := NUL]) line)) (data w)\<rparr>
          else w\<lparr>buf := (buf w)[e := NUL], skip := DO_NOT_SKIP\<rparr>) (e + 1) ret"
    using assms by (subst scan_lines.simps) (simp add: Let_def)
  then show ?thesis by (simp only: found_update)
qed

lemma scan_lines_None:
  assumes "memchr (buf w) line NL (ret - line) = None"
  shows "scan_lines w line ret =
         (if 0 < ret - line \<and> ret - line < length (buf w)
          then w\<lparr>buffered := ret - line, buf := memmove (buf w) line (ret - line)\<rparr>
          else if ret - line = length (buf w)
          then w\<lparr>buf := (buf w)[length (buf w) - 1 := NUL], skip := SKIP_THE_REST,
                 data := (if skip w = DO_NOT_SKIP
                          then process (func w)
                                 (Some (cstring ((buf w)[length (buf w) - 1 := NUL]) line)) (data w)
                          else data w)\<rparr>
          else w)"
  using assms by (subst scan_lines.simps) (simp add: Let_def)

lemma scan_lines_cases [case_names found rest]:
  fixes w :: "('d, 'o) fs_watch"
  assumes "\<And>(w :: ('d, 'o) fs_watch) line ret e.
             memchr (buf w) line NL (ret - line) = Some e \<Longrightarrow>
             P (w\<lparr>buf := (buf w)[e := NUL], skip := DO_NOT_SKIP,
                  data := (if skip w = DO_NOT_SKIP
                           then process (func w) (Some (cstring ((buf w)[e := NUL]) line)) (data w)
                           else data w)\<rparr>) (e + 1) ret \<Longrightarrow>
             P w line ret"
    and "\<And>(w :: ('d, 'o) fs_watch) line ret.
             memchr (buf w) line NL (ret - line) = None \<Longrightarrow> P w line ret"
  shows "P w line ret"
proof (induction w line ret rule: scan_lines.induct)
  case (1 w line ret)
  show ?case
  proof (cases "memchr (buf w) line NL (ret - line)")
    case None
    then show ?thesis by (rule assms(2))
  next
    case (Some e)
    have "P (if skip w = DO_NOT_SKIP
             then w\<lparr>buf := (buf w)[e := NUL],
                    data := process (func w) (Some (cstring ((buf w)[e := NUL]) line)) (data w)\<rparr>
             else w\<lparr>buf := (buf w)[e := NUL], skip := DO_NOT_SKIP\<rparr>) (e + 1) ret"
    proof (cases "skip w = DO_NOT_SKIP")
      case True
      then show ?thesis
        using "1.IH" [OF refl Some refl refl] by (simp add: Let_def)
    next
      case False
      then show ?thesis
        using "1.IH" [OF refl Some refl refl] by (simp add: Let_def)
    qed
    then have "P (w\<lparr>buf := (buf w)[e := NUL], skip := DO_NOT_SKIP,
            data := (if skip w = DO_NOT_SKIP
                     then process (func w) (Some (cstring ((buf w)[e := NUL]) line)) (data w)
                     else data w)\<rparr>) (e + 1) ret"
      by (simp only: found_update)
    then show ?thesis
      by (rule assms(1) [OF Some])
  qed
qed

lemma scan_lines_fd: "fd (scan_lines w line ret) = fd w"
proof (induction w line ret rule: scan_lines_cases)
  case (found w line ret e)
  then show ?case by (simp add: scan_lines_Some)
next
  case (rest w line ret)
  then show ?case by (simp add: scan_lines_None)
qed

lemma sys_read_pos:
  assumes "sys_read s f count = (ret, bs, s')" and "0 < ret"
  shows "ret = int (length bs)" and "bs = take (length bs) (unread s f)"
    and "unread s' f = drop (length bs) (unread s f)" and "length bs \<le> count"
    and "contents s' = contents s" and "names s' = names s"
proof -
  from assms obtain ino off where lk: "fd_lookup s f = Some (ino, off)"
    by (cases "fd_lookup s f") (auto simp: sys_read_def)
  then have rng: "0 \<le> f" "nat f < length (fds s)"
    by (auto simp: fd_lookup_def split: if_splits)
  from assms lk have nf: "\<And>e rest. script s \<noteq> Fail e # rest"
    by (auto simp: sys_read_def)
  define limit where
    "limit = (case script s of Deliver k # rest \<Rightarrow> min k count | _ \<Rightarrow> count)"
  define X where "X = take limit (drop off (file_bytes s ino))"
  have lim: "limit \<le> count"
    by (simp add: limit_def split: list.splits read_outcome.splits)
  have "sys_read s f count =
          (int (length X), X,
           s\<lparr>fds := (fds s)[nat f := Some (ino, off + length X)], script := tl (script s)\<rparr>)"
    using lk nf
    by (simp add: sys_read_def Let_def X_def limit_def split: list.splits read_outcome.splits)
  with assms(1) have ret: "ret = int (length X)" and bs: "bs = X"
    and s': "s' = s\<lparr>fds := (fds s)[nat f := Some (ino, off + length X)],
                     script := tl (script s)\<rparr>"
    by auto
  from lk have un: "unread s f = drop off (file_bytes s ino)"
    by (simp add: unread_def)
  from s' rng have lk': "fd_lookup s' f = Some (ino, off + length X)"
    by (simp add: fd_lookup_def)
  have fb: "file_bytes s' ino = file_bytes s ino"
    using s' by (simp add: file_bytes_def)
  show "ret = int (length bs)" using ret bs by simp
  show "bs = take (length bs) (unread s f)"
    unfolding bs un X_def by (cases "limit \<le> length (drop off (file_bytes s ino))") simp_all
  show "unread s' f = drop (length bs) (unread s f)"
    using lk' un fb bs by (simp add: unread_def add.commute)
  show "length bs \<le> count"
    using bs lim by (simp add: X_def)
  show "contents s' = contents s" using s' by simp
  show "names s' = names s" using s' by simp
qed

lemma sys_read_less:
  assumes "(ret, bs, s') = sys_read s f count" and "0 < ret"
  shows "length (unread s' f) < length (unread s f)"
proof -
  from assms have rd: "sys_read s f count = (ret, bs, s')" by simp
  have pos: "0 < length bs"
    using sys_read_pos(1) [OF rd assms(2)] assms(2) by simp
  have "length bs = length (take (length bs) (unread s f))"
    using sys_read_pos(2) [OF rd assms(2)] by simp
  then have le: "length bs \<le> length (unread s f)"
    by simp
  have "length (unread s' f) = length (unread s f) - length bs"
    using sys_read_pos(3) [OF rd assms(2)] by simp
  with pos le show ?thesis
    by linarith
qed

text \<open>The \<open>while\<close> loop of \<open>read_log_file\<close>. It ends because the open file is finite
  and every read that returns a positive count moves the offset forward.\<close>

function read_loop :: "sys \<Rightarrow> ('d, 'o) fs_watch \<Rightarrow> sys \<times> ('d, 'o) fs_watch" where
  "read_loop s w =
     (case sys_read s (fd w) (length (buf w) - buffered w) of
        (ret, bs, s') \<Rightarrow>
          if 0 < ret
          then (let w1 = w\<lparr>buf := store (buf w) (buffered w) bs\<rparr>;
                    ret' = nat ret + buffered w1;
                    w2 = w1\<lparr>buffered := 0\<rparr>
                in read_loop s' (scan_lines w2 0 ret'))
          else (s', w))"
  by pat_completeness auto

termination read_loop
  apply (relation "measure (\<lambda>(s, w). length (unread s (fd w)))")
   apply simp
  apply (simp add: scan_lines_fd)
  subgoal for s w x y xa ya
    by (rule sys_read_less [of x xa ya s "fd w" "length (buf w) - buffered w"]) auto
  done

declare read_loop.simps [simp del]

definition read_log_file ::
  "sys \<Rightarrow> ('d, 'o) fs_watch \<Rightarrow> nd_err \<times> sys \<times> ('d, 'o) fs_watch" where
  "read_log_file s w =
     (if fd w = - 1 then (ND_FILE, s, w)
      else (case read_loop s w of (s', w') \<Rightarrow> (ND_SUCCESS, s', w')))"

lemma scan_lines_frame:
  "func (scan_lines w line ret) = func w \<and> wtype (scan_lines w line ret) = wtype w \<and>
   dir_name (scan_lines w line ret) = dir_name w \<and>
   file_name (scan_lines w line ret) = file_name w \<and>
   watch_dir (scan_lines w line ret) = watch_dir w \<and> time (scan_lines w line ret) = time w"
proof (induction w line ret rule: scan_lines_cases)
  case (found w line ret e)
  then show ?case by (simp add: scan_lines_Some)
next
  case (rest w line ret)
  then show ?case by (simp add: scan_lines_None)
qed

lemma read_loop_more:
  assumes "sys_read s (fd w) (length (buf w) - buffered w) = (ret, bs, s1)" and "0 < ret"
  shows "read_loop s w =
         read_loop s1 (scan_lines (w\<lparr>buf := store (buf w) (buffered w) bs, buffered := 0\<rparr>) 0
                         (nat ret + buffered w))"
  using assms by (subst read_loop.simps) (simp add: Let_def)

lemma read_loop_stop:
  assumes "sys_read s (fd w) (length (buf w) - buffered w) = (ret, bs, s1)" and "\<not> 0 < ret"
  shows "read_loop s w = (s1, w)"
  using assms by (subst read_loop.simps) simp

lemma read_loop_cases [case_names more stop]:
  fixes w :: "('d, 'o) fs_watch"
  assumes "\<And>s (w :: ('d, 'o) fs_watch) ret bs s1.
             sys_read s (fd w) (length (buf w) - buffered w) = (ret, bs, s1) \<Longrightarrow> 0 < ret \<Longrightarrow>
             P s1 (scan_lines (w\<lparr>buf := store (buf w) (buffered w) bs, buffered := 0\<rparr>) 0
                     (nat ret + buffered w)) \<Longrightarrow>
             P s w"
    and "\<And>s (w :: ('d, 'o) fs_watch) ret bs s1.
             sys_read s (fd w) (length (buf w) - buffered w) = (ret, bs, s1) \<Longrightarrow> \<not> 0 < ret \<Longrightarrow>
             P s w"
  shows "P s w"
proof (induction s w rule: read_loop.induct)
  case (1 s w)
  obtain ret bs s1 where rd: "sys_read s (fd w) (length (buf w) - buffered w) = (ret, bs, s1)"
    by (cases "sys_read s (fd w) (length (buf w) - buffered w)") auto
  show ?case
  proof (cases "0 < ret")
    case True
    have "P s1 (scan_lines (w\<lparr>buf := store (buf w) (buffered w) bs, buffered := 0\<rparr>) 0
                     (nat ret + buffered w))"
      using "1.IH" [OF rd [symmetric] refl True refl refl refl] by simp
    then show ?thesis
      by (rule assms(1) [OF rd True])
  next
    case False
    then show ?thesis
      by (rule assms(2) [OF rd])
  qed
qed

lemma sys_read_nonpos:
  assumes "sys_read s f count = (ret, bs, s')" and "\<not> 0 < ret"
  shows "fds s' = fds s" and "contents s' = contents s" and "names s' = names s"
proof -
  have "fds s' = fds s \<and> contents s' = contents s \<and> names s' = names s"
  proof (cases "fd_lookup s f")
    case None
    with assms show ?thesis by (auto simp: sys_read_def)
  next
    case (Some a)
    obtain ino off where a: "a = (ino, off)" by (cases a)
    from Some a have at: "fds s ! nat f = Some (ino, off)"
      by (auto simp: fd_lookup_def split: if_splits)
    show ?thesis
    proof (cases "\<exists>e rest. script s = Fail e # rest")
      case True
      with assms Some a show ?thesis by (auto simp: sys_read_def)
    next
      case False
      define limit where
        "limit = (case script s of Deliver k # rest \<Rightarrow> min k count | _ \<Rightarrow> count)"
      define X where "X = take limit (drop off (file_bytes s ino))"
      have "sys_read s f count =
          (int (length X), X,
           s\<lparr>fds := (fds s)[nat f := Some (ino, off + length X)], script := tl (script s)\<rparr>)"
        using Some a False
        by (simp add: sys_read_def Let_def X_def limit_def split: list.splits read_outcome.splits)
      with assms(1) have ret: "ret = int (length X)"
        and s': "s' = s\<lparr>fds := (fds s)[nat f := Some (ino, off + length X)],
                     script := tl (script s)\<rparr>"
        by auto
      from ret assms(2) have "length X = 0" by simp
      with s' at list_update_id [of "fds s" "nat f"] show ?thesis
        by simp
    qed
  qed
  then show "fds s' = fds s" and "contents s' = contents s" and "names s' = names s"
    by simp_all
qed

section \<open>A reference reader that takes the stream byte by byte\<close>

text \<open>
  The reference reader has no buffer and no reads: it takes the bytes of the stream one
  at a time. Its state is the bytes of the line in progress, the skip state and the
  accumulator. A newline ends the line: it is handed to \<open>process\<close> as a C string, unless
  the reader is skipping. A byte that brings the line to \<open>cap\<close> bytes makes the reader hand
  over the first \<open>cap - 1\<close> bytes, unless it is skipping, and skip up to the next newline.
  \<open>read_log_file\<close> is compared with it below: whatever the sizes of the reads, the watch
  ends in the state the reference reader reaches on the bytes read.
\<close>

type_synonym 'd rstate = "byte list \<times> skip_state \<times> 'd"

definition ref_byte ::
  "nat \<Rightarrow> (string option \<Rightarrow> 'd \<Rightarrow> 'd) \<Rightarrow> 'd rstate \<Rightarrow> byte \<Rightarrow> 'd rstate" where
  "ref_byte cap pr st c =
     (case st of (p, sk, d) \<Rightarrow>
        if c = NL
        then ([], DO_NOT_SKIP, if sk = DO_NOT_SKIP then pr (Some (cstr p)) d else d)
        else if Suc (length p) = cap
        then ([], SKIP_THE_REST, if sk = DO_NOT_SKIP then pr (Some (cstr p)) d else d)
        else (p @ [c], sk, d))"

definition ref_feed ::
  "nat \<Rightarrow> (string option \<Rightarrow> 'd \<Rightarrow> 'd) \<Rightarrow> 'd rstate \<Rightarrow> byte list \<Rightarrow> 'd rstate" where
  "ref_feed cap pr st bs = foldl (ref_byte cap pr) st bs"

definition view :: "('d, 'o) fs_watch \<Rightarrow> 'd rstate" where
  "view w = (take (buffered w) (buf w), skip w, data w)"

lemma ref_feed_Nil [simp]: "ref_feed cap pr st [] = st"
  by (simp add: ref_feed_def)

lemma ref_feed_Cons [simp]: "ref_feed cap pr st (c # cs) = ref_feed cap pr (ref_byte cap pr st c) cs"
  by (simp add: ref_feed_def)

lemma ref_feed_append: "ref_feed cap pr st (a @ b) = ref_feed cap pr (ref_feed cap pr st a) b"
  by (simp add: ref_feed_def)

lemma ref_feed_plain:
  "NL \<notin> set l \<Longrightarrow> length p + length l < cap \<Longrightarrow> ref_feed cap pr (p, sk, d) l = (p @ l, sk, d)"
  by (induction l arbitrary: p) (auto simp: ref_byte_def)

lemma ref_feed_line:
  assumes "NL \<notin> set l" and "length p + length l < cap"
  shows "ref_feed cap pr (p, sk, d) (l @ NL # r) =
         ref_feed cap pr ([], DO_NOT_SKIP, if sk = DO_NOT_SKIP then pr (Some (cstr (p @ l))) d else d) r"
  using assms by (simp add: ref_feed_append ref_feed_plain ref_byte_def)

lemma ref_feed_full:
  assumes "NL \<notin> set l" and "l \<noteq> []" and "length p + length l = cap"
  shows "ref_feed cap pr (p, sk, d) l =
         ([], SKIP_THE_REST, if sk = DO_NOT_SKIP then pr (Some (cstr (butlast (p @ l)))) d else d)"
proof -
  from assms(2) obtain m c where l: "l = m @ [c]"
    by (metis rev_exhaust)
  with assms have "NL \<notin> set m" "length p + length m < cap" "c \<noteq> NL" "Suc (length p + length m) = cap"
    by auto
  then show ?thesis
    unfolding l by (simp add: ref_feed_append ref_feed_plain ref_byte_def butlast_append)
qed

lemma memchr_None_iff: "memchr b s c n = None \<longleftrightarrow> c \<notin> set (take n (drop s b))"
  by (simp add: memchr_def Let_def)

lemma memchr_Some_split:
  assumes "memchr b s c n = Some e"
  shows "\<exists>l. c \<notin> set l \<and> e = s + length l \<and> length l < n \<and>
             take n (drop s b) = l @ c # take (n - Suc (length l)) (drop (Suc e) b)"
proof -
  define seg where "seg = take n (drop s b)"
  define l where "l = takeWhile (\<lambda>x. x \<noteq> c) seg"
  from assms have mem: "c \<in> set seg" and e: "e = s + length l"
    by (auto simp: memchr_def Let_def seg_def l_def split: if_splits)
  from takeWhile_hit [OF mem] have k: "length l < length seg" and hit: "seg ! length l = c"
    by (auto simp: l_def)
  have "seg = take (length l) seg @ seg ! length l # drop (Suc (length l)) seg"
    using k by (simp add: id_take_nth_drop)
  moreover have "take (length l) seg = l"
    unfolding l_def by (metis takeWhile_eq_take)
  moreover have "drop (Suc (length l)) seg = take (n - Suc (length l)) (drop (Suc e) b)"
    by (simp add: seg_def e drop_take add.commute)
  ultimately have "seg = l @ c # take (n - Suc (length l)) (drop (Suc e) b)"
    using hit by simp
  moreover have "c \<notin> set l"
    unfolding l_def by (metis (mono_tags, lifting) set_takeWhileD)
  moreover have "length l < n"
    using k by (simp add: seg_def)
  ultimately show ?thesis
    using e unfolding seg_def by blast
qed

lemma cstr_stop: "cstr (l @ NUL # r) = cstr l"
  by (induction l) (auto simp: cstr_def)

lemma cstring_update:
  assumes "take k (drop p b) = l" and "length l = k" and "p + k < length b"
  shows "cstring (b[p + k := NUL]) p = cstr l"
proof -
  have "drop p (b[p + k := NUL]) = (drop p b)[k := NUL]"
    by (simp add: drop_update_swap)
  moreover have "drop p b = l @ drop k (drop p b)"
    using assms(1) by (metis append_take_drop_id)
  moreover obtain x xs where "drop k (drop p b) = x # xs"
    using assms(3) by (cases "drop k (drop p b)") auto
  ultimately have "drop p (b[p + k := NUL]) = l @ NUL # xs"
    using assms(2) by (simp add: list_update_append)
  then show ?thesis
    by (simp add: cstring_def cstr_stop)
qed

lemma scan_refines:
  fixes w :: "('d, 'o) fs_watch"
  shows "line \<le> ret \<Longrightarrow> ret \<le> length (buf w) \<Longrightarrow> buffered w = 0 \<Longrightarrow> 0 < length (buf w) \<Longrightarrow>
     view (scan_lines w line ret) =
       ref_feed (length (buf w)) (process (func w)) ([], skip w, data w)
         (take (ret - line) (drop line (buf w))) \<and>
     length (buf (scan_lines w line ret)) = length (buf w)"
proof (induction w line ret rule: scan_lines_cases)
  case (found w line ret e)
  define B where "B = buf w"
  define cap where "cap = length B"
  from memchr_Some_split [OF found.hyps] obtain l where nl: "NL \<notin> set l"
    and e: "e = line + length l" and len: "length l < ret - line"
    and seg: "take (ret - line) (drop line B) =
              l @ NL # take (ret - line - Suc (length l)) (drop (Suc e) B)"
    unfolding B_def by blast
  define d' where "d' = (if skip w = DO_NOT_SKIP
       then process (func w) (Some (cstring (B[e := NUL]) line)) (data w) else data w)"
  define w' where "w' = w\<lparr>buf := B[e := NUL], skip := DO_NOT_SKIP, data := d'\<rparr>"
  have step: "scan_lines w line ret = scan_lines w' (e + 1) ret"
    unfolding w'_def d'_def B_def by (rule scan_lines_Some [OF found.hyps])
  have pre: "e + 1 \<le> ret" "ret \<le> length (buf w')" "buffered w' = 0" "0 < length (buf w')"
    using found.prems e len by (simp_all add: w'_def B_def)
  have ih: "view (scan_lines w' (e + 1) ret) =
       ref_feed (length (buf w')) (process (func w')) ([], skip w', data w')
         (take (ret - (e + 1)) (drop (e + 1) (buf w'))) \<and>
     length (buf (scan_lines w' (e + 1) ret)) = length (buf w')"
    using found.IH pre unfolding w'_def d'_def B_def by blast
  have tk: "take (length l) (drop line B) = l"
  proof -
    have "take (length l) (take (ret - line) (drop line B)) = l"
      unfolding seg by simp
    then show ?thesis using len by (simp add: min_def)
  qed
  have eb: "line + length l < length B"
    using found.prems len by (simp add: B_def)
  have cs: "cstring (B[e := NUL]) line = cstr l"
    unfolding e by (rule cstring_update [OF tk refl eb])
  have dr: "drop (e + 1) (buf w') = drop (Suc e) B"
    by (simp add: w'_def)
  have lcap: "length l < cap"
    using len found.prems by (simp add: cap_def B_def)
  have "ref_feed cap (process (func w)) ([], skip w, data w) (take (ret - line) (drop line B)) =
        ref_feed cap (process (func w)) ([], DO_NOT_SKIP, d')
          (take (ret - line - Suc (length l)) (drop (Suc e) B))"
    unfolding seg using ref_feed_line [OF nl, of "[]" cap "process (func w)" "skip w" "data w"] lcap
    by (simp add: d'_def cs)
  moreover have "ret - (e + 1) = ret - line - Suc (length l)"
    using e by simp
  ultimately show ?case
    using ih step dr by (simp add: w'_def B_def cap_def)
next
  case (rest w line ret)
  define B where "B = buf w"
  define seg where "seg = take (ret - line) (drop line B)"
  from rest.hyps have nl: "NL \<notin> set seg"
    by (simp add: memchr_None_iff seg_def B_def)
  have lseg: "length seg = ret - line"
    using rest.prems by (simp add: seg_def B_def)
  have "ret - line \<le> length B"
    using rest.prems by (simp add: B_def)
  then have "(0 < ret - line \<and> ret - line < length B) \<or> ret - line = length B \<or> ret - line = 0"
    by arith
  then consider (keep) "0 < ret - line" "ret - line < length B"
    | (full) "ret - line = length B" | (none) "ret - line = 0"
    by auto
  then show ?case
  proof cases
    case keep
    then have "scan_lines w line ret =
        w\<lparr>buffered := ret - line, buf := memmove B line (ret - line)\<rparr>"
      unfolding scan_lines_None [OF rest.hyps] by (simp add: B_def)
    moreover have "take (ret - line) (memmove B line (ret - line)) = seg"
      using lseg by (simp add: memmove_def seg_def)
    moreover have "length (memmove B line (ret - line)) = length B"
      using rest.prems by (simp add: memmove_def B_def)
    moreover have "ref_feed (length B) (process (func w)) ([], skip w, data w) seg =
        (seg, skip w, data w)"
      using ref_feed_plain [OF nl, of "[]" "length B" "process (func w)" "skip w" "data w"] keep lseg
      by simp
    ultimately show ?thesis
      by (simp add: view_def seg_def B_def)
  next
    case full
    with rest.prems have l0: "line = 0" and r: "ret = length B"
      by (auto simp: B_def)
    have segB: "seg = B"
      by (simp add: seg_def l0 r)
    have ne: "B \<noteq> []"
      using rest.prems by (auto simp: B_def)
    have "scan_lines w line ret =
        w\<lparr>buf := B[length B - 1 := NUL], skip := SKIP_THE_REST,
          data := (if skip w = DO_NOT_SKIP
                   then process (func w) (Some (cstring (B[length B - 1 := NUL]) 0)) (data w)
                   else data w)\<rparr>"
      unfolding scan_lines_None [OF rest.hyps] using full rest.prems l0 by (simp add: B_def)
    moreover have "cstring (B[length B - 1 := NUL]) 0 = cstr (butlast B)"
      using cstring_update [of "length B - 1" 0 B "butlast B"] ne
      by (simp add: butlast_conv_take)
    moreover have "ref_feed (length B) (process (func w)) ([], skip w, data w) B =
        ([], SKIP_THE_REST,
         if skip w = DO_NOT_SKIP then process (func w) (Some (cstr (butlast B))) (data w)
         else data w)"
      using ref_feed_full [of B "[]" "length B" "process (func w)" "skip w" "data w"] nl ne segB
      by simp
    ultimately show ?thesis
      using rest.prems segB by (simp add: view_def seg_def B_def)
  next
    case none
    then have "scan_lines w line ret = w"
      unfolding scan_lines_None [OF rest.hyps] using rest.prems by (simp add: B_def)
    then show ?thesis
      using none rest.prems by (simp add: view_def)
  qed
qed

definition ref_ok :: "nat \<Rightarrow> 'd rstate \<Rightarrow> bool" where
  "ref_ok cap st = (case st of (p, sk, d) \<Rightarrow> length p < cap \<and> NL \<notin> set p)"

lemma ref_byte_ok: "0 < cap \<Longrightarrow> ref_ok cap st \<Longrightarrow> ref_ok cap (ref_byte cap pr st c)"
  by (cases st) (auto simp: ref_ok_def ref_byte_def)

lemma ref_feed_ok: "0 < cap \<Longrightarrow> ref_ok cap st \<Longrightarrow> ref_ok cap (ref_feed cap pr st bs)"
  by (induction bs arbitrary: st) (simp_all add: ref_byte_ok)

lemma take_store:
  "n \<le> length b \<Longrightarrow> n + length bs \<le> length b \<Longrightarrow>
     take (length bs + n) (store b n bs) = take n b @ bs \<and> length (store b n bs) = length b"
  by (simp add: store_def)

lemma read_loop_refines:
  fixes w :: "('d, 'o) fs_watch"
  shows "buffered w < length (buf w) \<Longrightarrow> NL \<notin> set (take (buffered w) (buf w)) \<Longrightarrow>
     read_loop s w = (s', w') \<Longrightarrow>
     (\<exists>bs. unread s (fd w) = bs @ unread s' (fd w) \<and>
           view w' = ref_feed (length (buf w)) (process (func w)) (view w) bs) \<and>
     length (buf w') = length (buf w) \<and> fd w' = fd w \<and> func w' = func w \<and>
     contents s' = contents s \<and> names s' = names s"
proof (induction s w rule: read_loop_cases)
  case (more s w ret bs s1)
  define cap where "cap = length (buf w)"
  define w2 where "w2 = w\<lparr>buf := store (buf w) (buffered w) bs, buffered := 0\<rparr>"
  define w3 where "w3 = scan_lines w2 0 (nat ret + buffered w)"
  note rp = sys_read_pos [OF more.hyps(1) more.hyps(2)]
  have ret: "nat ret = length bs" using rp(1) by simp
  have pos: "0 < length (buf w)" using more.prems(1) by linarith
  have fit: "buffered w + length bs \<le> cap"
    using rp(4) more.prems(1) by (simp add: cap_def)
  have st: "take (length bs + buffered w) (store (buf w) (buffered w) bs) =
            take (buffered w) (buf w) @ bs"
    and stl: "length (store (buf w) (buffered w) bs) = length (buf w)"
    using take_store [of "buffered w" "buf w" bs] fit more.prems(1) by (simp_all add: cap_def)
  have sr: "view w3 =
       ref_feed (length (buf w2)) (process (func w2)) ([], skip w2, data w2)
         (take (nat ret + buffered w - 0) (drop 0 (buf w2))) \<and>
     length (buf w3) = length (buf w2)"
    unfolding w3_def
    by (rule scan_refines) (use fit pos stl in \<open>simp_all add: w2_def ret cap_def\<close>)
  have capw2: "length (buf w2) = cap"
    by (simp add: w2_def stl cap_def)
  have v3: "view w3 = ref_feed cap (process (func w)) (view w) bs"
  proof -
    have "view w3 = ref_feed cap (process (func w)) ([], skip w, data w)
                      (take (buffered w) (buf w) @ bs)"
      using sr capw2 st by (simp add: w2_def ret)
    also have "\<dots> = ref_feed cap (process (func w)) (take (buffered w) (buf w), skip w, data w) bs"
      using ref_feed_plain [OF more.prems(2), of "[]" cap "process (func w)" "skip w" "data w"]
        more.prems(1)
      by (simp add: ref_feed_append cap_def)
    finally show ?thesis by (simp add: view_def)
  qed
  have cap3: "length (buf w3) = cap"
    using sr capw2 by simp
  have ok: "ref_ok cap (view w)"
    using more.prems(1,2) by (simp add: ref_ok_def view_def cap_def)
  have "ref_ok cap (view w3)"
    unfolding v3 by (rule ref_feed_ok) (use ok pos in \<open>simp_all add: cap_def\<close>)
  then have inv3: "buffered w3 < length (buf w3)" "NL \<notin> set (take (buffered w3) (buf w3))"
    using cap3 by (auto simp: ref_ok_def view_def)
  have fd3: "fd w3 = fd w" and fn3: "func w3 = func w"
    by (simp_all add: w3_def scan_lines_fd scan_lines_frame w2_def)
  have rl: "read_loop s1 w3 = (s', w')"
    using more.prems(3) read_loop_more [OF more.hyps(1) more.hyps(2)]
    by (simp add: w3_def w2_def)
  from more.IH [folded w2_def, folded w3_def, OF inv3 rl]
  obtain bs2 where u2: "unread s1 (fd w3) = bs2 @ unread s' (fd w3)"
    and v': "view w' = ref_feed (length (buf w3)) (process (func w3)) (view w3) bs2"
    and rest: "length (buf w') = length (buf w3)" "fd w' = fd w3" "func w' = func w3"
      "contents s' = contents s1" "names s' = names s1"
    by blast
  have "unread s (fd w) = bs @ unread s1 (fd w)"
    using rp(2,3) by (metis append_take_drop_id)
  then have "unread s (fd w) = (bs @ bs2) @ unread s' (fd w)"
    using u2 fd3 by simp
  moreover have "view w' = ref_feed cap (process (func w)) (view w) (bs @ bs2)"
    using v' v3 cap3 fn3 by (simp add: ref_feed_append)
  ultimately have "\<exists>bs. unread s (fd w) = bs @ unread s' (fd w) \<and>
           view w' = ref_feed (length (buf w)) (process (func w)) (view w) bs"
    unfolding cap_def by (intro exI [of _ "bs @ bs2"] conjI)
  then show ?case
    using rest cap3 fd3 fn3 rp(5,6) unfolding cap_def by simp
next
  case (stop s w ret bs s1)
  from stop.prems(3) read_loop_stop [OF stop.hyps] have eq: "s' = s1" "w' = w"
    by simp_all
  note np = sys_read_nonpos [OF stop.hyps]
  have "file_bytes s1 = file_bytes s" and "fd_lookup s1 = fd_lookup s"
    using np by (simp_all add: fun_eq_iff fd_lookup_def file_bytes_def)
  then have "unread s1 (fd w) = unread s (fd w)"
    by (simp add: unread_def split: option.splits)
  then have "unread s (fd w) = [] @ unread s' (fd w) \<and>
      view w' = ref_feed (length (buf w)) (process (func w)) (view w) []"
    using eq by simp
  then have "\<exists>bs. unread s (fd w) = bs @ unread s' (fd w) \<and>
           view w' = ref_feed (length (buf w)) (process (func w)) (view w) bs"
    by (rule exI [of _ "[]"])
  then show ?case
    using eq np by simp
qed

section \<open>The unsplit stream and its lines\<close>

text \<open>
  The lines of a byte stream, as the specification speaks of them: \<open>stream_lines\<close> are the
  newline-terminated lines in order, without their terminators, and \<open>stream_rest\<close> is what
  follows the last terminator. \<open>pending\<close> is the part of a line that a watch holds in its
  buffer between reads, \<open>consumed\<close> the bytes that left the file between two states of
  the system, and \<open>dispatch_all\<close> hands lines to \<open>process\<close> one after the other.
\<close>

fun lines_from :: "byte list \<Rightarrow> byte list \<Rightarrow> byte list list" where
  "lines_from cur [] = []"
| "lines_from cur (c # cs) =
     (if c = NL then cur # lines_from [] cs else lines_from (cur @ [c]) cs)"

fun rest_from :: "byte list \<Rightarrow> byte list \<Rightarrow> byte list" where
  "rest_from cur [] = cur"
| "rest_from cur (c # cs) = (if c = NL then rest_from [] cs else rest_from (cur @ [c]) cs)"

definition stream_lines :: "byte list \<Rightarrow> byte list list" where
  "stream_lines bs = lines_from [] bs"

definition stream_rest :: "byte list \<Rightarrow> byte list" where
  "stream_rest bs = rest_from [] bs"

definition all_short :: "nat \<Rightarrow> byte list \<Rightarrow> bool" where
  "all_short cap bs =
     ((\<forall>l \<in> set (stream_lines bs). length l < cap) \<and> length (stream_rest bs) < cap)"

definition pending :: "('d, 'o) fs_watch \<Rightarrow> byte list" where
  "pending w = take (buffered w) (buf w)"

definition consumed :: "sys \<Rightarrow> sys \<Rightarrow> int \<Rightarrow> byte list" where
  "consumed s s' f = take (length (unread s f) - length (unread s' f)) (unread s f)"

definition dispatch_all :: "('d, 'o) stat_func \<Rightarrow> 'd \<Rightarrow> string list \<Rightarrow> 'd" where
  "dispatch_all f d ls = foldl (\<lambda>d l. process f (Some l) d) d ls"

lemma from_prefix:
  "NL \<notin> set p \<Longrightarrow> lines_from q (p @ bs) = lines_from (q @ p) bs \<and>
                      rest_from q (p @ bs) = rest_from (q @ p) bs"
  by (induction p arbitrary: q) auto

lemma cur_le:
  "(case lines_from p bs of [] \<Rightarrow> length p \<le> length (rest_from p bs)
    | l # ls \<Rightarrow> length p \<le> length l)"
proof (induction bs arbitrary: p)
  case Nil
  show ?case by simp
next
  case (Cons c cs)
  show ?case
  proof (cases "c = NL")
    case True
    then show ?thesis by simp
  next
    case False
    with Cons [of "p @ [c]"] show ?thesis
      by (auto split: list.splits)
  qed
qed

lemma ref_feed_short:
  "(\<forall>l \<in> set (lines_from p bs). length l < cap) \<Longrightarrow> length (rest_from p bs) < cap \<Longrightarrow>
   ref_feed cap pr (p, DO_NOT_SKIP, d) bs =
     (rest_from p bs, DO_NOT_SKIP, foldl (\<lambda>d l. pr (Some l) d) d (map cstr (lines_from p bs)))"
proof (induction bs arbitrary: p d)
  case Nil
  show ?case by simp
next
  case (Cons c cs)
  show ?case
  proof (cases "c = NL")
    case True
    with Cons show ?thesis
      by (simp add: ref_byte_def)
  next
    case False
    have "length (p @ [c]) < cap"
      using cur_le [of "p @ [c]" cs] Cons.prems False
      by (auto split: list.splits)
    then have "Suc (length p) \<noteq> cap" by simp
    with False Cons show ?thesis
      by (simp add: ref_byte_def)
  qed
qed

lemma ref_feed_skipping:
  "NL \<notin> set l \<Longrightarrow> \<exists>q. ref_feed cap pr (p, SKIP_THE_REST, d) l = (q, SKIP_THE_REST, d)"
  by (induction l arbitrary: p) (auto simp: ref_byte_def)

lemma ref_feed_skip_line:
  assumes "NL \<notin> set l"
  shows "ref_feed cap pr (p, SKIP_THE_REST, d) (l @ [NL]) = ([], DO_NOT_SKIP, d)"
proof -
  from ref_feed_skipping [OF assms, of cap pr p d] obtain q where
    "ref_feed cap pr (p, SKIP_THE_REST, d) l = (q, SKIP_THE_REST, d)" by auto
  then show ?thesis
    by (simp add: ref_feed_append ref_byte_def)
qed

lemma rest_from_no_NL: "NL \<notin> set p \<Longrightarrow> NL \<notin> set (rest_from p bs)"
proof (induction bs arbitrary: p)
  case Nil
  then show ?case by simp
next
  case (Cons c cs)
  show ?case
  proof (cases "c = NL")
    case True
    then show ?thesis
      using Cons.IH [of "[]"] by simp
  next
    case False
    then show ?thesis
      using Cons.IH [of "p @ [c]"] Cons.prems by simp
  qed
qed

lemma lines_from_no_nul:
  "NUL \<notin> set p \<Longrightarrow> NUL \<notin> set bs \<Longrightarrow> \<forall>l \<in> set (lines_from p bs). NUL \<notin> set l"
proof (induction bs arbitrary: p)
  case Nil
  show ?case by simp
next
  case (Cons c cs)
  show ?case
  proof (cases "c = NL")
    case True
    then show ?thesis
      using Cons.IH [of "[]"] Cons.prems by simp
  next
    case False
    then show ?thesis
      using Cons.IH [of "p @ [c]"] Cons.prems by simp
  qed
qed

lemma cstr_no_nul: "NUL \<notin> set l \<Longrightarrow> cstr l = l"
proof -
  assume "NUL \<notin> set l"
  then have "\<And>x. x \<in> set l \<Longrightarrow> x \<noteq> NUL"
    by (rule contrapos_nn) simp
  then show ?thesis
    unfolding cstr_def by (rule takeWhile_eq_all_conv [THEN iffD2, rule_format])
qed

text \<open>What \<open>read_log_file\<close> leaves: the reference reader's state on the bytes read.\<close>

lemma read_log_file_refines:
  fixes w :: "('d, 'o) fs_watch"
  assumes "read_log_file s w = (e, s', w')" and "buffered w < length (buf w)"
    and "NL \<notin> set (pending w)"
  shows "view w' = ref_feed (length (buf w)) (process (func w)) (view w) (consumed s s' (fd w))"
    and "length (buf w') = length (buf w)"
proof -
  have "view w' = ref_feed (length (buf w)) (process (func w)) (view w) (consumed s s' (fd w)) \<and>
        length (buf w') = length (buf w)"
  proof (cases "fd w = - 1")
    case True
    with assms(1) have "s' = s" "w' = w"
      by (simp_all add: read_log_file_def)
    then show ?thesis
      by (simp add: consumed_def)
  next
    case False
    with assms(1) have rl: "read_loop s w = (s', w')"
      by (auto simp: read_log_file_def split: prod.splits)
    from read_loop_refines [OF assms(2) assms(3) [unfolded pending_def] rl]
    obtain bs where u: "unread s (fd w) = bs @ unread s' (fd w)"
      and v: "view w' = ref_feed (length (buf w)) (process (func w)) (view w) bs"
      and l: "length (buf w') = length (buf w)"
      by auto
    from u have "consumed s s' (fd w) = bs"
      by (simp add: consumed_def)
    with v l show ?thesis by simp
  qed
  then show "view w' = ref_feed (length (buf w)) (process (func w)) (view w) (consumed s s' (fd w))"
    and "length (buf w') = length (buf w)"
    by simp_all
qed

lemma view_start:
  assumes "buffered w < length (buf w)" and "NL \<notin> set (pending w)"
  shows "ref_feed (length (buf w)) pr (view w) bs =
         ref_feed (length (buf w)) pr ([], skip w, data w) (pending w @ bs)"
  using assms ref_feed_plain [of "pending w" "[]" "length (buf w)" pr "skip w" "data w"]
  by (simp add: ref_feed_append view_def pending_def)

lemma read_log_file_lines:
  fixes w :: "('d, 'o) fs_watch"
  assumes "read_log_file s w = (e, s', w')"
    and "buffered w < length (buf w)" and "skip w = DO_NOT_SKIP" and "NL \<notin> set (pending w)"
    and "all_short (length (buf w)) (pending w @ consumed s s' (fd w))"
  shows "data w' = dispatch_all (func w) (data w)
                     (map cstr (stream_lines (pending w @ consumed s s' (fd w))))"
    and "pending w' = stream_rest (pending w @ consumed s s' (fd w))"
proof -
  define st where "st = pending w @ consumed s s' (fd w)"
  have "view w' = ref_feed (length (buf w)) (process (func w)) ([], DO_NOT_SKIP, data w) st"
    using read_log_file_refines(1) [OF assms(1,2,4)] view_start [OF assms(2,4)] assms(3)
    by (simp add: st_def)
  also have "\<dots> = (rest_from [] st, DO_NOT_SKIP,
      foldl (\<lambda>d l. process (func w) (Some l) d) (data w) (map cstr (lines_from [] st)))"
    using assms(5)
    by (intro ref_feed_short) (simp_all add: all_short_def st_def stream_lines_def stream_rest_def)
  finally have v: "view w' = (stream_rest st, DO_NOT_SKIP,
      dispatch_all (func w) (data w) (map cstr (stream_lines st)))"
    by (simp add: dispatch_all_def stream_lines_def stream_rest_def)
  from v show "data w' = dispatch_all (func w) (data w)
                     (map cstr (stream_lines (pending w @ consumed s s' (fd w))))"
    and "pending w' = stream_rest (pending w @ consumed s s' (fd w))"
    unfolding st_def [symmetric] by (auto simp: view_def pending_def)
qed

section \<open>A collector that records its lines, a fresh watch and a system with one file\<close>

text \<open>Concrete values on which the theorems below are evaluated.\<close>

definition log_func :: "(string list, unit) stat_func" where
  "log_func = \<lparr>init = Some [], print_hdr = (\<lambda>n out. (0, out)), print = (\<lambda>n d t out. (0, out)),
     process = (\<lambda>l d. case l of None \<Rightarrow> d | Some x \<Rightarrow> d @ [x]),
     postprocess = None, clear = (\<lambda>d. [])\<rparr>"

definition fresh_watch :: "nat \<Rightarrow> int \<Rightarrow> (string list, unit) fs_watch" where
  "fresh_watch cap f = \<lparr>wtype = WATCH_LOG_FILE, dir_name = Some ''send'',
     file_name = Some ''current'',
     watch_dir = 1, fd = f, buf = replicate cap NUL, buffered = 0, skip = DO_NOT_SKIP,
     func = log_func, data = [], time = 0\<rparr>"

definition one_file :: "byte list \<Rightarrow> read_outcome list \<Rightarrow> sys" where
  "one_file bs sc = \<lparr>names = [''send/current'' \<mapsto> 0], contents = [0 \<mapsto> bs],
     fds = [Some (0, 0)], script = sc, last_errno = None\<rparr>"

text \<open>
  A log that grows between calls of \<open>read_log_file\<close>: a first call that ends inside an
  overlong line, a second that reads more of that line, and a third that reads its end
  and what follows.
\<close>

definition file_grows :: "sys \<Rightarrow> nat \<Rightarrow> byte list \<Rightarrow> sys" where
  "file_grows s ino bs = s\<lparr>contents := (contents s)(ino \<mapsto> file_bytes s ino @ bs)\<rparr>"

definition split_reads :: sys where
  "split_reads = one_file (''ab'' @ [NL] @ ''cdefgh'') [Deliver 2, Deliver 3]"

definition first_call :: "nd_err \<times> sys \<times> (string list, unit) fs_watch" where
  "first_call = read_log_file split_reads (fresh_watch 4 0)"

definition second_call :: "nd_err \<times> sys \<times> (string list, unit) fs_watch" where
  "second_call = read_log_file (file_grows (fst (snd first_call)) 0 ''ij'') (snd (snd first_call))"

definition third_call :: "nd_err \<times> sys \<times> (string list, unit) fs_watch" where
  "third_call = read_log_file
     (file_grows (fst (snd second_call)) 0 (''k'' @ [NL] @ ''lm'' @ [NL] @ ''n''))
     (snd (snd second_call))"

section \<open>The claims about \<open>read_log_file\<close>\<close>

text \<open>
  Claim C1, as amended. Whatever the sizes of the reads (the script of the system), when
  every line of the stream is shorter than the buffer, \<open>read_log_file\<close> hands to
  \<open>process\<close> one C string for each newline-terminated line of the unsplit stream, in the
  order of the stream: the line up to its first NUL byte, since the line is passed as a
  \<open>const char *\<close>. For a stream without NUL bytes these are the lines themselves. The
  stream is the pending part of a line followed by the bytes read, and its unterminated
  rest stays pending.
\<close>

theorem read_log_file_dispatches_stream_lines:
  fixes w :: "('d, 'o) fs_watch"
  assumes "read_log_file s w = (e, s', w')"
    and "buffered w < length (buf w)" and "skip w = DO_NOT_SKIP" and "NL \<notin> set (pending w)"
    and "all_short (length (buf w)) (pending w @ consumed s s' (fd w))"
  shows "data w' = dispatch_all (func w) (data w)
                     (map cstr (stream_lines (pending w @ consumed s s' (fd w)))) \<and>
         pending w' = stream_rest (pending w @ consumed s s' (fd w)) \<and>
         NL \<notin> set (pending w') \<and> skip w' = DO_NOT_SKIP \<and>
         (NUL \<notin> set (pending w @ consumed s s' (fd w)) \<longrightarrow>
            data w' = dispatch_all (func w) (data w)
                        (stream_lines (pending w @ consumed s s' (fd w))))"
proof -
  define st where "st = pending w @ consumed s s' (fd w)"
  have "view w' = ref_feed (length (buf w)) (process (func w)) ([], DO_NOT_SKIP, data w) st"
    using read_log_file_refines(1) [OF assms(1,2,4)] view_start [OF assms(2,4)] assms(3)
    by (simp add: st_def)
  also have "\<dots> = (rest_from [] st, DO_NOT_SKIP,
      foldl (\<lambda>d l. process (func w) (Some l) d) (data w) (map cstr (lines_from [] st)))"
    using assms(5) by (intro ref_feed_short) (simp_all add: all_short_def st_def stream_lines_def stream_rest_def)
  finally have v: "view w' = (stream_rest st, DO_NOT_SKIP,
      dispatch_all (func w) (data w) (map cstr (stream_lines st)))"
    by (simp add: dispatch_all_def stream_lines_def stream_rest_def)
  have nul: "NUL \<notin> set st \<Longrightarrow> map cstr (stream_lines st) = stream_lines st"
  proof -
    assume n: "NUL \<notin> set st"
    from lines_from_no_nul [of "[]" st] n have "\<forall>l \<in> set (stream_lines st). cstr l = l"
      by (simp add: stream_lines_def cstr_no_nul)
    then show ?thesis
      by (simp add: map_idI)
  qed
  have "NL \<notin> set (stream_rest st)"
    using rest_from_no_NL [of "[]" st] by (simp add: stream_rest_def)
  with v nul show ?thesis
    unfolding st_def [symmetric] by (auto simp: view_def pending_def)
qed

theorem read_log_file_dispatches_stream_lines_witness:
  "data (snd (snd (read_log_file
       (one_file (''ab'' @ [NL] @ ''cd'' @ [NL] @ ''e'') [Deliver 1, Deliver 3, Deliver 2])
       (fresh_watch 4 0)))) = [''ab'', ''cd''] \<and>
   pending (snd (snd (read_log_file
       (one_file (''ab'' @ [NL] @ ''cd'' @ [NL] @ ''e'') [Deliver 1, Deliver 3, Deliver 2])
       (fresh_watch 4 0)))) = ''e''"
proof -
  let ?S = "one_file (''ab'' @ [NL] @ ''cd'' @ [NL] @ ''e'') [Deliver 1, Deliver 3, Deliver 2]"
  let ?W = "fresh_watch 4 0"
  let ?R = "read_log_file ?S ?W"
  have h1: "?R = (fst ?R, fst (snd ?R), snd (snd ?R))" by simp
  have h2: "buffered ?W < length (buf ?W)" by code_simp
  have h3: "skip ?W = DO_NOT_SKIP" by code_simp
  have h4: "NL \<notin> set (pending ?W)" by code_simp
  have h5: "all_short (length (buf ?W)) (pending ?W @ consumed ?S (fst (snd ?R)) (fd ?W))"
    by code_simp
  have c: "dispatch_all (func ?W) (data ?W)
             (map cstr (stream_lines (pending ?W @ consumed ?S (fst (snd ?R)) (fd ?W)))) =
           [''ab'', ''cd'']"
    by code_simp
  have r: "stream_rest (pending ?W @ consumed ?S (fst (snd ?R)) (fd ?W)) = ''e''"
    by code_simp
  from read_log_file_dispatches_stream_lines [OF h1 h2 h3 h4 h5] c r show ?thesis
    by simp
qed

text \<open>
  Claim C1 as stated fails on a stream with a NUL byte: the line \<open>a\<close>, NUL, \<open>b\<close> is read
  whole, and what \<open>process\<close> receives is the string \<open>a\<close>.
\<close>

theorem nul_byte_cuts_dispatched_line:
  "all_short 8 [CHR ''a'', NUL, CHR ''b'', NL] \<and>
   consumed (one_file [CHR ''a'', NUL, CHR ''b'', NL] [])
     (fst (snd (read_log_file (one_file [CHR ''a'', NUL, CHR ''b'', NL] []) (fresh_watch 8 0)))) 0 =
     [CHR ''a'', NUL, CHR ''b'', NL] \<and>
   dispatch_all log_func [] (stream_lines [CHR ''a'', NUL, CHR ''b'', NL]) =
     [[CHR ''a'', NUL, CHR ''b'']] \<and>
   data (snd (snd (read_log_file (one_file [CHR ''a'', NUL, CHR ''b'', NL] [])
     (fresh_watch 8 0)))) = [''a''] \<and>
   data (snd (snd (read_log_file (one_file [CHR ''a'', NUL, CHR ''b'', NL] [])
     (fresh_watch 8 0)))) \<noteq>
     dispatch_all log_func [] (stream_lines [CHR ''a'', NUL, CHR ''b'', NL])"
  by code_simp

lemma ref_feed_skipping_ok:
  assumes "NL \<notin> set l" and "length p < cap" and "NL \<notin> set p"
  shows "\<exists>q. ref_feed cap pr (p, SKIP_THE_REST, d) l = (q, SKIP_THE_REST, d) \<and>
             length q < cap \<and> NL \<notin> set q"
proof -
  from ref_feed_skipping [OF assms(1), of cap pr p d] obtain q where
    q: "ref_feed cap pr (p, SKIP_THE_REST, d) l = (q, SKIP_THE_REST, d)" by auto
  have "ref_ok cap (p, SKIP_THE_REST, d)"
    using assms(2,3) by (simp add: ref_ok_def)
  then have "ref_ok cap (ref_feed cap pr (p, SKIP_THE_REST, d) l)"
    using assms(2) by (intro ref_feed_ok) simp_all
  with q show ?thesis
    by (simp add: ref_ok_def)
qed

lemma ref_feed_lines:
  assumes "all_short cap bs"
  shows "ref_feed cap pr ([], DO_NOT_SKIP, d) bs =
         (stream_rest bs, DO_NOT_SKIP, foldl (\<lambda>d l. pr (Some l) d) d (map cstr (stream_lines bs)))"
  using assms ref_feed_short [of "[]" bs cap pr d]
  by (simp add: all_short_def stream_lines_def stream_rest_def)

lemma ref_feed_overlong:
  assumes "0 < cap" and "length span = cap" and "NL \<notin> set span"
  shows "ref_feed cap pr ([], DO_NOT_SKIP, d) span =
         ([], SKIP_THE_REST, pr (Some (cstr (take (cap - 1) span @ [NUL]))) d)"
proof -
  have ne: "span \<noteq> []" using assms(1,2) by auto
  have cs: "cstr (butlast span) = cstr (take (cap - 1) span @ [NUL])"
    using assms(2) cstr_stop [of "take (cap - 1) span" "[]"]
    by (simp add: butlast_conv_take)
  show ?thesis
    using ref_feed_full [OF assms(3) ne, of "[]" cap pr DO_NOT_SKIP d] assms(2) cs
    by simp
qed

lemma view_facts:
  assumes "view w' = (q, sk, d)" and "length q < length (buf w')"
  shows "pending w' = q" and "skip w' = sk" and "data w' = d" and "buffered w' = length q"
    and "buffered w' < length (buf w')"
  using assms by (auto simp: view_def pending_def)

text \<open>
  Claim C3. Wherever a line starts in the stream of a call (the pending bytes followed by
  the bytes read), a span of exactly capacity bytes without a newline is handed to
  \<open>process\<close> once, as its first capacity - 1 bytes and a terminator, after what was handed
  over before it; the watch is then skipping, and right after the span it holds no
  buffered bytes. The continuation \<open>cont\<close> of the line, up to and with the next newline,
  adds no call of \<open>process\<close>, whether it arrives in the same call or, the watch being left
  skipping, in later calls; the newline ends the skipping, and the lines \<open>nxt\<close> after it
  are handed over as usual. The reads may split the stream anywhere. What comes before
  the span is either the complete short lines \<open>pre\<close>, or any bytes \<open>lead\<close> (overlong lines
  among them) after which the watch is at the start of a line: it is so when a call that
  reads \<open>lead\<close> and no more leaves the watch \<open>wb\<close> with no pending bytes and not skipping,
  and the accumulator of \<open>wb\<close> is what was handed over before the span.
\<close>

theorem overlong_line_dispatched_once:
  fixes w :: "('d, 'o) fs_watch"
  assumes "read_log_file s w = (e, s', w')"
    and "buffered w < length (buf w)" and "NL \<notin> set (pending w)"
    and "length span = length (buf w)" and "NL \<notin> set span" and "NL \<notin> set cont"
    and "all_short (length (buf w)) pre" and "stream_rest pre = []"
    and "all_short (length (buf w)) nxt"
  shows
    "(skip w = DO_NOT_SKIP \<and> pending w @ consumed s s' (fd w) = pre @ span @ cont \<longrightarrow>
        data w' = dispatch_all (func w) (data w)
                    (map cstr (stream_lines pre) @
                     [cstr (take (length (buf w) - 1) span @ [NUL])]) \<and>
        skip w' = SKIP_THE_REST \<and> (cont = [] \<longrightarrow> buffered w' = 0) \<and>
        buffered w' < length (buf w') \<and> NL \<notin> set (pending w')) \<and>
     (skip w = DO_NOT_SKIP \<and>
      pending w @ consumed s s' (fd w) = pre @ span @ cont @ [NL] @ nxt \<longrightarrow>
        data w' = dispatch_all (func w) (data w)
                    (map cstr (stream_lines pre) @
                     [cstr (take (length (buf w) - 1) span @ [NUL])] @
                     map cstr (stream_lines nxt)) \<and>
        skip w' = DO_NOT_SKIP \<and> pending w' = stream_rest nxt) \<and>
     (skip w = SKIP_THE_REST \<and> pending w @ consumed s s' (fd w) = cont \<longrightarrow>
        data w' = data w \<and> skip w' = SKIP_THE_REST \<and>
        buffered w' < length (buf w') \<and> NL \<notin> set (pending w')) \<and>
     (skip w = SKIP_THE_REST \<and> pending w @ consumed s s' (fd w) = cont @ [NL] @ nxt \<longrightarrow>
        data w' = dispatch_all (func w) (data w) (map cstr (stream_lines nxt)) \<and>
        skip w' = DO_NOT_SKIP \<and> pending w' = stream_rest nxt) \<and>
     (read_log_file sb w = (eb, sb', wb) \<and> pending w @ consumed sb sb' (fd w) = lead \<and>
      pending wb = [] \<and> skip wb = DO_NOT_SKIP \<and>
      pending w @ consumed s s' (fd w) = lead @ span @ cont \<longrightarrow>
        data w' = process (func w) (Some (cstr (take (length (buf w) - 1) span @ [NUL])))
                    (data wb) \<and>
        skip w' = SKIP_THE_REST \<and> (cont = [] \<longrightarrow> buffered w' = 0) \<and>
        buffered w' < length (buf w') \<and> NL \<notin> set (pending w')) \<and>
     (read_log_file sb w = (eb, sb', wb) \<and> pending w @ consumed sb sb' (fd w) = lead \<and>
      pending wb = [] \<and> skip wb = DO_NOT_SKIP \<and>
      pending w @ consumed s s' (fd w) = lead @ span @ cont @ [NL] @ nxt \<longrightarrow>
        data w' = dispatch_all (func w)
                    (process (func w) (Some (cstr (take (length (buf w) - 1) span @ [NUL])))
                       (data wb))
                    (map cstr (stream_lines nxt)) \<and>
        skip w' = DO_NOT_SKIP \<and> pending w' = stream_rest nxt)"
proof -
  define cap where "cap = length (buf w)"
  define pr where "pr = process (func w)"
  define t where "t = cstr (take (cap - 1) span @ [NUL])"
  define d0 where "d0 = foldl (\<lambda>d l. pr (Some l) d) (data w) (map cstr (stream_lines pre))"
  define st where "st = pending w @ consumed s s' (fd w)"
  have cap: "0 < cap" using assms(2) unfolding cap_def by linarith
  have v: "view w' = ref_feed cap pr ([], skip w, data w) st"
    using read_log_file_refines(1) [OF assms(1,2,3)] view_start [OF assms(2,3), of pr]
    by (simp add: cap_def pr_def st_def)
  have l: "length (buf w') = cap"
    using read_log_file_refines(2) [OF assms(1,2,3)] by (simp add: cap_def)
  have f0: "ref_feed cap pr ([], DO_NOT_SKIP, data w) pre = ([], DO_NOT_SKIP, d0)"
    using ref_feed_lines [OF assms(7) [folded cap_def], of pr "data w"] assms(8)
    by (simp add: d0_def)
  have fb: "ref_feed cap pr ([], skip w, data w) lead = ([], DO_NOT_SKIP, data wb)"
    if "read_log_file sb w = (eb, sb', wb)" "pending w @ consumed sb sb' (fd w) = lead"
      "pending wb = []" "skip wb = DO_NOT_SKIP"
  proof -
    have "view wb = ref_feed cap pr ([], skip w, data w) lead"
      using read_log_file_refines(1) [OF that(1) assms(2,3)] view_start [OF assms(2,3), of pr]
        that(2)
      by (simp add: cap_def pr_def)
    moreover have "view wb = ([], DO_NOT_SKIP, data wb)"
      using that(3,4) unfolding view_def pending_def by simp
    ultimately show ?thesis by simp
  qed
  have fo: "ref_feed cap pr ([], DO_NOT_SKIP, D) span = ([], SKIP_THE_REST, pr (Some t) D)" for D
    using ref_feed_overlong [OF cap assms(4) [folded cap_def] assms(5), of pr D]
    by (simp add: t_def)
  have fn: "\<And>d. ref_feed cap pr ([], DO_NOT_SKIP, d) nxt =
      (stream_rest nxt, DO_NOT_SKIP, foldl (\<lambda>d l. pr (Some l) d) d (map cstr (stream_lines nxt)))"
    by (rule ref_feed_lines [OF assms(9) [folded cap_def]])
  have rn: "length (stream_rest nxt) < cap"
    using assms(9) by (simp add: all_short_def cap_def)
  have sk: "\<And>d. \<exists>q. ref_feed cap pr ([], SKIP_THE_REST, d) cont = (q, SKIP_THE_REST, d) \<and>
      length q < cap \<and> NL \<notin> set q"
    using ref_feed_skipping_ok [OF assms(6), of "[]" cap pr] cap by simp
  have sl: "\<And>d. ref_feed cap pr ([], SKIP_THE_REST, d) (cont @ [NL]) = ([], DO_NOT_SKIP, d)"
    by (rule ref_feed_skip_line [OF assms(6)])
  have s1: "ref_feed cap pr ([], skip w, data w) ((P @ span) @ R) =
      ref_feed cap pr ([], SKIP_THE_REST, pr (Some t) D) R"
    if "ref_feed cap pr ([], skip w, data w) P = ([], DO_NOT_SKIP, D)" for P D R
    by (simp only: ref_feed_append [of cap pr "([], skip w, data w)" "P @ span" R]
        ref_feed_append [of cap pr "([], skip w, data w)" P span] that fo)
  have s2: "ref_feed cap pr ([], SKIP_THE_REST, d) ((cont @ [NL]) @ R) =
      ref_feed cap pr ([], DO_NOT_SKIP, d) R" for d R
    by (simp only: ref_feed_append [of cap pr "([], SKIP_THE_REST, d)" "cont @ [NL]" R] sl)
  have core_a: "data w' = pr (Some t) D \<and> skip w' = SKIP_THE_REST \<and>
      (cont = [] \<longrightarrow> buffered w' = 0) \<and> buffered w' < length (buf w') \<and> NL \<notin> set (pending w')"
    if h: "ref_feed cap pr ([], skip w, data w) P = ([], DO_NOT_SKIP, D)" "st = P @ span @ cont"
    for P D
  proof -
    from sk [of "pr (Some t) D"] obtain q where
      q: "ref_feed cap pr ([], SKIP_THE_REST, pr (Some t) D) cont = (q, SKIP_THE_REST, pr (Some t) D)"
      and ql: "length q < cap" and qn: "NL \<notin> set q" by auto
    have "st = (P @ span) @ cont"
      using h(2) by simp
    then have vq: "view w' = (q, SKIP_THE_REST, pr (Some t) D)"
      using v s1 [OF h(1), of cont] q by (simp only:)
    have "cont = [] \<Longrightarrow> q = []" using q by simp
    with view_facts [OF vq] ql qn l show ?thesis by simp
  qed
  have core_b: "data w' = foldl (\<lambda>d l. pr (Some l) d) (pr (Some t) D) (map cstr (stream_lines nxt)) \<and>
      skip w' = DO_NOT_SKIP \<and> pending w' = stream_rest nxt"
    if h: "ref_feed cap pr ([], skip w, data w) P = ([], DO_NOT_SKIP, D)"
      "st = P @ span @ cont @ [NL] @ nxt"
    for P D
  proof -
    have "st = (P @ span) @ (cont @ [NL]) @ nxt"
      using h(2) by simp
    then have "view w' = (stream_rest nxt, DO_NOT_SKIP,
        foldl (\<lambda>d l. pr (Some l) d) (pr (Some t) D) (map cstr (stream_lines nxt)))"
      using v s1 [OF h(1), of "(cont @ [NL]) @ nxt"] s2 [of "pr (Some t) D" nxt]
        fn [of "pr (Some t) D"]
      by (simp only:)
    from view_facts [OF this] rn l show ?thesis by simp
  qed
  have e1: "dispatch_all (func w) (data w) (map cstr (stream_lines pre) @ [t]) = pr (Some t) d0"
    by (simp add: dispatch_all_def d0_def pr_def)
  have e2: "dispatch_all (func w) (data w)
              (map cstr (stream_lines pre) @ [t] @ map cstr (stream_lines nxt)) =
            foldl (\<lambda>d l. pr (Some l) d) (pr (Some t) d0) (map cstr (stream_lines nxt))"
    by (simp add: dispatch_all_def d0_def pr_def)
  have e3: "dispatch_all (func w) D (map cstr (stream_lines nxt)) =
            foldl (\<lambda>d l. pr (Some l) d) D (map cstr (stream_lines nxt))" for D
    by (simp add: dispatch_all_def pr_def)
  have c1: "data w' = dispatch_all (func w) (data w) (map cstr (stream_lines pre) @ [t]) \<and>
      skip w' = SKIP_THE_REST \<and> (cont = [] \<longrightarrow> buffered w' = 0) \<and>
      buffered w' < length (buf w') \<and> NL \<notin> set (pending w')"
    if "skip w = DO_NOT_SKIP \<and> st = pre @ span @ cont"
    unfolding e1 using that f0 by (intro core_a [of pre d0]) simp_all
  have c2: "data w' = dispatch_all (func w) (data w)
                (map cstr (stream_lines pre) @ [t] @ map cstr (stream_lines nxt)) \<and>
      skip w' = DO_NOT_SKIP \<and> pending w' = stream_rest nxt"
    if "skip w = DO_NOT_SKIP \<and> st = pre @ span @ cont @ [NL] @ nxt"
    unfolding e2 using that f0 by (intro core_b [of pre d0]) simp_all
  have c3: "data w' = data w \<and> skip w' = SKIP_THE_REST \<and>
      buffered w' < length (buf w') \<and> NL \<notin> set (pending w')"
    if h: "skip w = SKIP_THE_REST \<and> st = cont"
  proof -
    from sk [of "data w"] obtain q where
      q: "ref_feed cap pr ([], SKIP_THE_REST, data w) cont = (q, SKIP_THE_REST, data w)"
      and ql: "length q < cap" and qn: "NL \<notin> set q" by auto
    have vq: "view w' = (q, SKIP_THE_REST, data w)"
      using v h q by simp
    from view_facts [OF vq] ql qn l show ?thesis by simp
  qed
  have c4: "data w' = dispatch_all (func w) (data w) (map cstr (stream_lines nxt)) \<and>
      skip w' = DO_NOT_SKIP \<and> pending w' = stream_rest nxt"
    if h: "skip w = SKIP_THE_REST \<and> st = cont @ [NL] @ nxt"
  proof -
    have "st = (cont @ [NL]) @ nxt" and sw: "skip w = SKIP_THE_REST"
      using h by simp_all
    then have "view w' = (stream_rest nxt, DO_NOT_SKIP,
        foldl (\<lambda>d l. pr (Some l) d) (data w) (map cstr (stream_lines nxt)))"
      using v s2 [of "data w" nxt] fn [of "data w"] by (simp only:)
    from view_facts [OF this] rn l show ?thesis by (simp add: e3)
  qed
  have c5: "data w' = pr (Some t) (data wb) \<and> skip w' = SKIP_THE_REST \<and>
      (cont = [] \<longrightarrow> buffered w' = 0) \<and> buffered w' < length (buf w') \<and> NL \<notin> set (pending w')"
    if h: "read_log_file sb w = (eb, sb', wb) \<and> pending w @ consumed sb sb' (fd w) = lead \<and>
      pending wb = [] \<and> skip wb = DO_NOT_SKIP \<and> st = lead @ span @ cont"
  proof -
    from h have "ref_feed cap pr ([], skip w, data w) lead = ([], DO_NOT_SKIP, data wb)"
      by (intro fb) simp_all
    with h show ?thesis by (intro core_a [of lead "data wb"]) simp_all
  qed
  have c6: "data w' = dispatch_all (func w) (pr (Some t) (data wb)) (map cstr (stream_lines nxt)) \<and>
      skip w' = DO_NOT_SKIP \<and> pending w' = stream_rest nxt"
    if h: "read_log_file sb w = (eb, sb', wb) \<and> pending w @ consumed sb sb' (fd w) = lead \<and>
      pending wb = [] \<and> skip wb = DO_NOT_SKIP \<and> st = lead @ span @ cont @ [NL] @ nxt"
  proof -
    from h have "ref_feed cap pr ([], skip w, data w) lead = ([], DO_NOT_SKIP, data wb)"
      by (intro fb) simp_all
    with h show ?thesis unfolding e3 by (intro core_b [of lead "data wb"]) simp_all
  qed
  from c1 c2 c3 c4 c5 c6 show ?thesis
    unfolding t_def pr_def st_def cap_def by blast
qed

theorem overlong_line_dispatched_once_witness:
  "data (snd (snd first_call)) = [''ab'', ''cde''] \<and>
   skip (snd (snd first_call)) = SKIP_THE_REST \<and> pending (snd (snd first_call)) = ''gh'' \<and>
   data (snd (snd second_call)) = [''ab'', ''cde''] \<and>
   skip (snd (snd second_call)) = SKIP_THE_REST \<and>
   data (snd (snd third_call)) = [''ab'', ''cde'', ''lm''] \<and>
   skip (snd (snd third_call)) = DO_NOT_SKIP \<and> pending (snd (snd third_call)) = ''n'' \<and>
   data (snd (snd (read_log_file
     (one_file (''ab'' @ [NL] @ ''cdefgh'' @ [NL] @ ''lm'' @ [NL] @ ''n'') [Deliver 3])
     (fresh_watch 4 0)))) = [''ab'', ''cde'', ''lm''] \<and>
   data (snd (snd (read_log_file
     (one_file (''abcdefg'' @ [NL] @ ''hijklm'') [Deliver 3]) (fresh_watch 4 0)))) =
     [''abc'', ''hij''] \<and>
   skip (snd (snd (read_log_file
     (one_file (''abcdefg'' @ [NL] @ ''hijklm'') [Deliver 3]) (fresh_watch 4 0)))) =
     SKIP_THE_REST \<and>
   data (snd (snd (read_log_file
     (one_file (''abcdefg'' @ [NL] @ ''hijklm'' @ [NL] @ ''no'') [Deliver 3])
     (fresh_watch 4 0)))) = [''abc'', ''hij''] \<and>
   pending (snd (snd (read_log_file
     (one_file (''abcdefg'' @ [NL] @ ''hijklm'' @ [NL] @ ''no'') [Deliver 3])
     (fresh_watch 4 0)))) = ''no''"
proof -
  let ?W0 = "fresh_watch 4 0"
  let ?S1 = split_reads
  let ?W1 = "snd (snd first_call)"
  let ?S2 = "file_grows (fst (snd first_call)) 0 ''ij''"
  let ?W2 = "snd (snd second_call)"
  let ?S3 = "file_grows (fst (snd second_call)) 0 (''k'' @ [NL] @ ''lm'' @ [NL] @ ''n'')"
  let ?S4 = "one_file (''ab'' @ [NL] @ ''cdefgh'' @ [NL] @ ''lm'' @ [NL] @ ''n'') [Deliver 3]"
  let ?R4 = "read_log_file ?S4 ?W0"
  have r1: "read_log_file ?S1 ?W0 = (fst first_call, fst (snd first_call), ?W1)"
    by (simp add: first_call_def)
  have r2: "read_log_file ?S2 ?W1 = (fst second_call, fst (snd second_call), ?W2)"
    by (simp add: second_call_def)
  have r3: "read_log_file ?S3 ?W2 = (fst third_call, fst (snd third_call), snd (snd third_call))"
    by (simp add: third_call_def)
  have r4: "?R4 = (fst ?R4, fst (snd ?R4), snd (snd ?R4))" by simp
  have span: "NL \<notin> set ''cdef''" "NL \<notin> set ''gh''" "NL \<notin> set ''ghij''" "NL \<notin> set ''k''"
    by code_simp+
  have nil: "stream_rest [] = []" by code_simp
  have pre: "stream_rest (''ab'' @ [NL]) = []" by code_simp
  have s0: "all_short (length (buf ?W0)) (''ab'' @ [NL])"
    "all_short (length (buf ?W0)) (''lm'' @ [NL] @ ''n'')"
    by code_simp+
  have s1: "all_short (length (buf ?W1)) []" by code_simp
  have s2: "all_short (length (buf ?W2)) []"
    "all_short (length (buf ?W2)) (''lm'' @ [NL] @ ''n'')"
    by code_simp+
  have w0: "buffered ?W0 < length (buf ?W0)" "NL \<notin> set (pending ?W0)"
    "length ''cdef'' = length (buf ?W0)" "skip ?W0 = DO_NOT_SKIP"
    by code_simp+
  have w1: "buffered ?W1 < length (buf ?W1)" "NL \<notin> set (pending ?W1)"
    "length ''cdef'' = length (buf ?W1)" "skip ?W1 = SKIP_THE_REST"
    by code_simp+
  have w2: "buffered ?W2 < length (buf ?W2)" "NL \<notin> set (pending ?W2)"
    "length ''cdef'' = length (buf ?W2)" "skip ?W2 = SKIP_THE_REST"
    by code_simp+
  have e1: "pending ?W0 @ consumed ?S1 (fst (snd first_call)) (fd ?W0) =
            (''ab'' @ [NL]) @ ''cdef'' @ ''gh''"
    by code_simp
  have e2: "pending ?W1 @ consumed ?S2 (fst (snd second_call)) (fd ?W1) = ''ghij''"
    by code_simp
  have e3: "pending ?W2 @ consumed ?S3 (fst (snd third_call)) (fd ?W2) =
            ''k'' @ [NL] @ ''lm'' @ [NL] @ ''n''"
    by code_simp
  have e4: "pending ?W0 @ consumed ?S4 (fst (snd ?R4)) (fd ?W0) =
            (''ab'' @ [NL]) @ ''cdef'' @ ''gh'' @ [NL] @ ''lm'' @ [NL] @ ''n''"
    by code_simp
  have v1: "dispatch_all (func ?W0) (data ?W0)
              (map cstr (stream_lines (''ab'' @ [NL])) @
               [cstr (take (length (buf ?W0) - 1) ''cdef'' @ [NUL])]) = [''ab'', ''cde'']"
    by code_simp
  have v3: "dispatch_all (func ?W2) (data ?W2) (map cstr (stream_lines (''lm'' @ [NL] @ ''n''))) =
            data ?W2 @ [''lm'']"
    "stream_rest (''lm'' @ [NL] @ ''n'') = ''n''"
    by code_simp+
  have v4: "dispatch_all (func ?W0) (data ?W0)
              (map cstr (stream_lines (''ab'' @ [NL])) @
               [cstr (take (length (buf ?W0) - 1) ''cdef'' @ [NUL])] @
               map cstr (stream_lines (''lm'' @ [NL] @ ''n''))) = [''ab'', ''cde'', ''lm'']"
    by code_simp
  have p1: "pending ?W1 = ''gh''" by code_simp
  from overlong_line_dispatched_once
         [OF r1 w0(1,2,3) span(1,2) s0(1) pre s0(2)]
       w0(4) e1 v1
  have a: "data ?W1 = [''ab'', ''cde''] \<and> skip ?W1 = SKIP_THE_REST"
    by simp
  from overlong_line_dispatched_once
         [OF r2 w1(1,2,3) span(1,3) s1 nil s1]
       w1(4) e2 a
  have b: "data ?W2 = [''ab'', ''cde''] \<and> skip ?W2 = SKIP_THE_REST"
    by simp
  from overlong_line_dispatched_once
         [OF r3 w2(1,2,3) span(1,4) s2(1) nil s2(2)]
       w2(4) e3 v3 b
  have c: "data (snd (snd third_call)) = [''ab'', ''cde'', ''lm''] \<and>
           skip (snd (snd third_call)) = DO_NOT_SKIP \<and> pending (snd (snd third_call)) = ''n''"
    by simp
  from overlong_line_dispatched_once
         [OF r4 w0(1,2,3) span(1,2) s0(1) pre s0(2)]
       w0(4) e4 v4
  have d: "data (snd (snd ?R4)) = [''ab'', ''cde'', ''lm'']"
    by simp
  let ?SB = "one_file (''abcdefg'' @ [NL]) []"
  let ?RB = "read_log_file ?SB ?W0"
  let ?S5 = "one_file (''abcdefg'' @ [NL] @ ''hijklm'') [Deliver 3]"
  let ?R5 = "read_log_file ?S5 ?W0"
  let ?S6 = "one_file (''abcdefg'' @ [NL] @ ''hijklm'' @ [NL] @ ''no'') [Deliver 3]"
  let ?R6 = "read_log_file ?S6 ?W0"
  have rb: "?RB = (fst ?RB, fst (snd ?RB), snd (snd ?RB))" by simp
  have r5: "?R5 = (fst ?R5, fst (snd ?R5), snd (snd ?R5))" by simp
  have r6: "?R6 = (fst ?R6, fst (snd ?R6), snd (snd ?R6))" by simp
  have sp: "length ''hijk'' = length (buf ?W0)" "NL \<notin> set ''hijk''" "NL \<notin> set ''lm''"
    "all_short (length (buf ?W0)) []" "all_short (length (buf ?W0)) ''no''"
    by code_simp+
  have eb: "pending ?W0 @ consumed ?SB (fst (snd ?RB)) (fd ?W0) = ''abcdefg'' @ [NL]"
    "pending (snd (snd ?RB)) = []" "skip (snd (snd ?RB)) = DO_NOT_SKIP"
    by code_simp+
  have e5: "pending ?W0 @ consumed ?S5 (fst (snd ?R5)) (fd ?W0) =
            (''abcdefg'' @ [NL]) @ ''hijk'' @ ''lm''"
    by code_simp
  have e6: "pending ?W0 @ consumed ?S6 (fst (snd ?R6)) (fd ?W0) =
            (''abcdefg'' @ [NL]) @ ''hijk'' @ ''lm'' @ [NL] @ ''no''"
    by code_simp
  have v5: "process (func ?W0) (Some (cstr (take (length (buf ?W0) - 1) ''hijk'' @ [NUL])))
              (data (snd (snd ?RB))) = [''abc'', ''hij'']"
    by code_simp
  have v6: "dispatch_all (func ?W0)
              (process (func ?W0) (Some (cstr (take (length (buf ?W0) - 1) ''hijk'' @ [NUL])))
                 (data (snd (snd ?RB))))
              (map cstr (stream_lines ''no'')) = [''abc'', ''hij'']"
    "stream_rest ''no'' = ''no''"
    by code_simp+
  from overlong_line_dispatched_once
         [OF r5 w0(1,2) sp(1,2,3,4) nil sp(5), where sb = ?SB and eb = "fst ?RB"
            and sb' = "fst (snd ?RB)" and wb = "snd (snd ?RB)" and lead = "''abcdefg'' @ [NL]"]
       rb eb e5 v5
  have f: "data (snd (snd ?R5)) = [''abc'', ''hij''] \<and> skip (snd (snd ?R5)) = SKIP_THE_REST"
    by simp
  from overlong_line_dispatched_once
         [OF r6 w0(1,2) sp(1,2,3,4) nil sp(5), where sb = ?SB and eb = "fst ?RB"
            and sb' = "fst (snd ?RB)" and wb = "snd (snd ?RB)" and lead = "''abcdefg'' @ [NL]"]
       rb eb e6 v6
  have g: "data (snd (snd ?R6)) = [''abc'', ''hij''] \<and> pending (snd (snd ?R6)) = ''no''"
    by simp
  from a b c d p1 f g show ?thesis by simp
qed

lemma scan_lines_bound:
  fixes w :: "('d, 'o) fs_watch"
  shows "line \<le> ret \<Longrightarrow> ret \<le> length (buf w) \<Longrightarrow> buffered w < length (buf w) \<Longrightarrow>
     buffered (scan_lines w line ret) < length (buf (scan_lines w line ret)) \<and>
     length (buf (scan_lines w line ret)) = length (buf w)"
proof (induction w line ret rule: scan_lines_cases)
  case (found w line ret e)
  from memchr_Some_bounds [OF found.hyps] found.prems have "e + 1 \<le> ret"
    by simp
  with found.IH found.prems show ?case
    by (simp add: scan_lines_Some [OF found.hyps])
next
  case (rest w line ret)
  then show ?case
    by (simp add: scan_lines_None [OF rest.hyps] memmove_def)
qed

lemma read_loop_bound:
  fixes w :: "('d, 'o) fs_watch"
  shows "buffered w < length (buf w) \<Longrightarrow> read_loop s w = (s', w') \<Longrightarrow>
     buffered w' < length (buf w') \<and> length (buf w') = length (buf w)"
proof (induction s w rule: read_loop_cases)
  case (more s w ret bs s1)
  define w2 where "w2 = w\<lparr>buf := store (buf w) (buffered w) bs, buffered := 0\<rparr>"
  note rp = sys_read_pos [OF more.hyps(1) more.hyps(2)]
  have fit: "buffered w + length bs \<le> length (buf w)"
    using rp(4) more.prems(1) by simp
  then have l2: "length (buf w2) = length (buf w)"
    using more.prems(1) by (simp add: w2_def store_def)
  have pos: "0 < length (buf w)" using more.prems(1) by linarith
  have "buffered (scan_lines w2 0 (nat ret + buffered w)) <
          length (buf (scan_lines w2 0 (nat ret + buffered w))) \<and>
        length (buf (scan_lines w2 0 (nat ret + buffered w))) = length (buf w2)"
    by (rule scan_lines_bound) (use fit l2 rp(1) pos in \<open>simp_all add: w2_def\<close>)
  moreover have "read_loop s1 (scan_lines w2 0 (nat ret + buffered w)) = (s', w')"
    using more.prems(2) read_loop_more [OF more.hyps(1) more.hyps(2)] by (simp add: w2_def)
  ultimately show ?case
    using more.IH [folded w2_def] l2 by simp
next
  case (stop s w ret bs s1)
  with read_loop_stop [OF stop.hyps] show ?case by simp
qed

text \<open>
  Claim C7. After a call of \<open>read_log_file\<close> the watch holds fewer buffered bytes than the
  capacity of its buffer, and the capacity is what it was.
\<close>

theorem buffered_below_capacity:
  fixes w :: "('d, 'o) fs_watch"
  assumes "buffered w < length (buf w)" and "read_log_file s w = (e, s', w')"
  shows "buffered w' < length (buf w') \<and> length (buf w') = length (buf w)"
proof (cases "fd w = - 1")
  case True
  with assms show ?thesis
    by (simp add: read_log_file_def)
next
  case False
  with assms(2) have "read_loop s w = (s', w')"
    by (auto simp: read_log_file_def split: prod.splits)
  with assms(1) show ?thesis
    by (rule read_loop_bound)
qed

theorem buffered_below_capacity_witness:
  "buffered (snd (snd (read_log_file
       (one_file (''ab'' @ [NL] @ ''cdefgh'') [Deliver 2]) (fresh_watch 4 0)))) < 4"
proof -
  let ?S = "one_file (''ab'' @ [NL] @ ''cdefgh'') [Deliver 2]"
  let ?W = "fresh_watch 4 0"
  let ?R = "read_log_file ?S ?W"
  have h1: "?R = (fst ?R, fst (snd ?R), snd (snd ?R))" by simp
  have h2: "buffered ?W < length (buf ?W)" by code_simp
  have l: "length (buf ?W) = 4" by code_simp
  from buffered_below_capacity [OF h2 h1] l show ?thesis
    by simp
qed

text \<open>
  Claim C10. When the first byte of the bytes still to scan is a newline and the watch is
  not skipping, \<open>memchr\<close> finds it at once, the C string handed to \<open>process\<close> is the
  empty string, and the scan goes on after the newline.
\<close>

theorem empty_line_dispatched:
  fixes w :: "('d, 'o) fs_watch"
  assumes "line < ret" and "ret \<le> length (buf w)" and "buf w ! line = NL"
    and "skip w = DO_NOT_SKIP"
  shows "memchr (buf w) line NL (ret - line) = Some line \<and>
         cstring ((buf w)[line := NUL]) line = [] \<and>
         scan_lines w line ret =
           scan_lines (w\<lparr>buf := (buf w)[line := NUL],
                         data := process (func w) (Some []) (data w)\<rparr>) (line + 1) ret"
proof -
  have lt: "line < length (buf w)" using assms(1,2) by simp
  then have dr: "drop line (buf w) = NL # drop (Suc line) (buf w)"
    using assms(3) by (metis Cons_nth_drop_Suc)
  obtain n where n: "ret - line = Suc n"
    using assms(1) by (cases "ret - line") auto
  have m: "memchr (buf w) line NL (ret - line) = Some line"
    by (simp add: memchr_def dr n)
  have c: "cstring ((buf w)[line := NUL]) line = []"
    using lt by (simp add: cstring_def cstr_def drop_update_swap dr)
  have "w\<lparr>buf := (buf w)[line := NUL], skip := DO_NOT_SKIP,
           data := process (func w) (Some []) (data w)\<rparr> =
        w\<lparr>buf := (buf w)[line := NUL], data := process (func w) (Some []) (data w)\<rparr>"
    using assms(4) by (auto intro!: fs_watch.equality)
  with scan_lines_Some [OF m] c assms(4) have
    "scan_lines w line ret =
       scan_lines (w\<lparr>buf := (buf w)[line := NUL],
                     data := process (func w) (Some []) (data w)\<rparr>) (line + 1) ret"
    by simp
  with m c show ?thesis by simp
qed

theorem empty_line_dispatched_witness:
  "data (scan_lines ((fresh_watch 4 0)\<lparr>buf := [NL, NL, CHR ''x'', NUL]\<rparr>) 0 2) = ['''', '''']"
proof -
  let ?W = "(fresh_watch 4 0)\<lparr>buf := [NL, NL, CHR ''x'', NUL]\<rparr>"
  have h1: "(0::nat) < 2" by simp
  have h2: "2 \<le> length (buf ?W)" by code_simp
  have h3: "buf ?W ! 0 = NL" by code_simp
  have h4: "skip ?W = DO_NOT_SKIP" by code_simp
  have r: "data (scan_lines (?W\<lparr>buf := (buf ?W)[0 := NUL],
                data := process (func ?W) (Some []) (data ?W)\<rparr>) (0 + 1) 2) = ['''', '''']"
    by code_simp
  from empty_line_dispatched [OF h1 h2 h3 h4] r show ?thesis
    by simp
qed

text \<open>
  Claim C4, as amended. When \<open>read\<close> on the open file of a watch fails, whatever the error
  number, \<open>read_log_file\<close> returns \<open>ND_SUCCESS\<close>: no error reaches the caller. The watch
  is as it was (buffer, buffered count, skip state, accumulator, descriptor) and the
  descriptor table is untouched, so the descriptor stays open.
\<close>

theorem read_failure_returns_success:
  fixes w :: "('d, 'o) fs_watch"
  assumes "fd_lookup s (fd w) \<noteq> None" and "script s = Fail err # rest"
  shows "read_log_file s w = (ND_SUCCESS, s\<lparr>script := rest, last_errno := Some err\<rparr>, w)"
proof -
  from assms(1) have "fd w \<noteq> - 1"
    by (auto simp: fd_lookup_def split: if_splits)
  moreover have "sys_read s (fd w) (length (buf w) - buffered w) =
      (- 1, [], s\<lparr>script := rest, last_errno := Some err\<rparr>)"
    using assms by (auto simp: sys_read_def)
  then have "read_loop s w = (s\<lparr>script := rest, last_errno := Some err\<rparr>, w)"
    by (rule read_loop_stop) simp
  ultimately show ?thesis
    by (simp add: read_log_file_def)
qed

theorem read_failure_returns_success_witness:
  "read_log_file (one_file (''cd'' @ [NL]) [Fail EIO])
     ((fresh_watch 4 0)\<lparr>buf := ''ab'' @ [NUL, NUL], buffered := 2\<rparr>) =
   (ND_SUCCESS, (one_file (''cd'' @ [NL]) [Fail EIO])\<lparr>script := [], last_errno := Some EIO\<rparr>,
    (fresh_watch 4 0)\<lparr>buf := ''ab'' @ [NUL, NUL], buffered := 2\<rparr>)"
proof -
  let ?S = "one_file (''cd'' @ [NL]) [Fail EIO]"
  let ?W = "(fresh_watch 4 0)\<lparr>buf := ''ab'' @ [NUL, NUL], buffered := 2\<rparr>"
  have h1: "fd_lookup ?S (fd ?W) \<noteq> None" by code_simp
  have h2: "script ?S = Fail EIO # []" by (simp add: one_file_def)
  show ?thesis by (rule read_failure_returns_success [OF h1 h2])
qed

text \<open>
  Claim C4 as stated fails: here \<open>read\<close> returns -1 with \<open>EIO\<close>, which is not would-block,
  and \<open>read_log_file\<close> returns \<open>ND_SUCCESS\<close>.
\<close>

theorem read_error_not_signalled:
  "fst (sys_read (one_file (''cd'' @ [NL]) [Fail EIO]) 0 2) = - 1 \<and>
   last_errno (snd (snd (sys_read (one_file (''cd'' @ [NL]) [Fail EIO]) 0 2))) = Some EIO \<and>
   fst (read_log_file (one_file (''cd'' @ [NL]) [Fail EIO])
          ((fresh_watch 4 0)\<lparr>buf := ''ab'' @ [NUL, NUL], buffered := 2\<rparr>)) = ND_SUCCESS"
  by code_simp

section \<open>Rotation: \<open>reopen_log_file\<close>, \<open>process_fs_event\<close>; creation: \<open>prepare_watcher\<close>\<close>

text \<open>
  An inotify event: the watch descriptor, the length of the name field and the name as
  a C string. A result \<open>None\<close> below stands for undefined behaviour of the C program:
  \<open>sprintf\<close> or \<open>strcmp\<close> on the null names of the queue watch. The size of the local
  array \<open>file_name\<close> is not modelled.
\<close>

record inotify_event =
  ev_wd :: int
  ev_len :: nat
  ev_name :: string

definition reopen_log_file ::
  "sys \<Rightarrow> ('d, 'o) fs_watch \<Rightarrow> (sys \<times> ('d, 'o) fs_watch) option" where
  "reopen_log_file s w =
     (case (dir_name w, file_name w) of
        (Some d, Some f) \<Rightarrow>
          (case sys_close s (fd w) of
             (r, s1) \<Rightarrow>
               (case sys_open s1 (d @ ''/'' @ f) of
                  (f', s2) \<Rightarrow> Some (s2, w\<lparr>fd := f'\<rparr>)))
      | _ \<Rightarrow> None)"

text \<open>The body of the loop of \<open>process_fs_event\<close>, for the watch \<open>item\<close>.\<close>

definition process_fs_event_item ::
  "inotify_event \<Rightarrow> sys \<Rightarrow> ('d, 'o) fs_watch \<Rightarrow> (sys \<times> ('d, 'o) fs_watch) option" where
  "process_fs_event_item ev s item =
     (if ev_wd ev = watch_dir item
      then (if ev_len ev \<noteq> 0
            then (case file_name item of
                    None \<Rightarrow> None
                  | Some n \<Rightarrow>
                      (if ev_name ev = n
                       then (case read_log_file s item of
                               (e, s1, item1) \<Rightarrow> reopen_log_file s1 item1)
                       else Some (s, item)))
            else Some (s, item))
      else Some (s, item))"

fun process_fs_event ::
  "inotify_event \<Rightarrow> sys \<Rightarrow> ('d, 'o) fs_watch list \<Rightarrow> (sys \<times> ('d, 'o) fs_watch list) option" where
  "process_fs_event ev s [] = Some (s, [])"
| "process_fs_event ev s (item # watchers) =
     (case process_fs_event_item ev s item of
        None \<Rightarrow> None
      | Some (s1, item1) \<Rightarrow>
          (case process_fs_event ev s1 watchers of
             None \<Rightarrow> None
           | Some (s2, watchers1) \<Rightarrow> Some (s2, item1 # watchers1)))"

text \<open>
  \<open>prepare_watcher\<close> fills a zeroed watch: \<open>cap\<close> is the capacity of its buffer,
  \<open>add_watch\<close> the answer of \<open>inotify_add_watch\<close> for a directory. \<open>DO_NOT_SKIP\<close> is taken
  to be the enumerator 0. The watch is \<open>None\<close> where the function returns an error, since
  its caller drops the watch then.
\<close>

definition prepare_watcher ::
  "nat \<Rightarrow> (string \<Rightarrow> int) \<Rightarrow> sys \<Rightarrow> string \<Rightarrow> ('d, 'o) stat_func \<Rightarrow>
     nd_err \<times> sys \<times> ('d, 'o) fs_watch option" where
  "prepare_watcher cap add_watch s dir f =
     (if add_watch dir = - 1 then (ND_INOTIFY, s, None)
      else (case sys_open s (dir @ ''/'' @ ''current'') of
              (fd', s1) \<Rightarrow>
                (case sys_lseek_end s1 fd' of
                   (r, s2) \<Rightarrow>
                     (case init f of
                        None \<Rightarrow> (ND_ALLOC, s2, None)
                      | Some d \<Rightarrow>
                          (ND_SUCCESS, s2,
                           Some \<lparr>wtype = WATCH_LOG_FILE, dir_name = Some dir,
                                 file_name = Some ''current'', watch_dir = add_watch dir,
                                 fd = fd', buf = replicate cap NUL, buffered = 0,
                                 skip = DO_NOT_SKIP, func = f, data = d, time = 0\<rparr>)))))"

lemma free_slot_le: "free_slot t \<le> length t"
  by (induction t rule: free_slot.induct) auto

lemma sys_open_lookup:
  assumes "names s path = Some ino" and "sys_open s path = (f, s')"
  shows "fd_lookup s' f = Some (ino, 0) \<and> contents s' = contents s \<and> names s' = names s \<and>
         0 \<le> f"
proof -
  define n where "n = free_slot (fds s)"
  from assms have f: "f = int n"
    and s': "s' = s\<lparr>fds := (if n < length (fds s) then (fds s)[n := Some (ino, 0)]
                            else fds s @ [Some (ino, 0)])\<rparr>"
    by (auto simp: sys_open_def Let_def n_def)
  have "n \<le> length (fds s)"
    unfolding n_def by (rule free_slot_le)
  then show ?thesis
    unfolding f s' by (auto simp: fd_lookup_def nth_append)
qed

lemma read_loop_frame:
  fixes w :: "('d, 'o) fs_watch"
  shows "read_loop s w = (s', w') \<Longrightarrow>
     names s' = names s \<and> contents s' = contents s \<and> fd w' = fd w \<and> func w' = func w \<and>
     wtype w' = wtype w \<and> dir_name w' = dir_name w \<and> file_name w' = file_name w \<and>
     watch_dir w' = watch_dir w \<and> time w' = time w"
proof (induction s w rule: read_loop_cases)
  case (more s w ret bs s1)
  have "read_loop s1 (scan_lines (w\<lparr>buf := store (buf w) (buffered w) bs, buffered := 0\<rparr>) 0
          (nat ret + buffered w)) = (s', w')"
    using more.prems read_loop_more [OF more.hyps(1) more.hyps(2)] by simp
  from more.IH [OF this] sys_read_pos(5,6) [OF more.hyps(1) more.hyps(2)] show ?case
    by (simp add: scan_lines_fd scan_lines_frame)
next
  case (stop s w ret bs s1)
  with read_loop_stop [OF stop.hyps] sys_read_nonpos [OF stop.hyps] show ?case
    by simp
qed

lemma read_log_file_frame:
  fixes w :: "('d, 'o) fs_watch"
  assumes "read_log_file s w = (e, s', w')"
  shows "names s' = names s \<and> contents s' = contents s \<and> fd w' = fd w \<and> func w' = func w \<and>
     wtype w' = wtype w \<and> dir_name w' = dir_name w \<and> file_name w' = file_name w \<and>
     watch_dir w' = watch_dir w \<and> time w' = time w"
proof (cases "fd w = - 1")
  case True
  with assms show ?thesis by (simp add: read_log_file_def)
next
  case False
  with assms have "read_loop s w = (s', w')"
    by (auto simp: read_log_file_def split: prod.splits)
  then show ?thesis by (rule read_loop_frame)
qed

lemma sys_close_frame: "sys_close s f = (r, s') \<Longrightarrow> names s' = names s \<and> contents s' = contents s"
  by (auto simp: sys_close_def split: option.splits)

text \<open>A system after a rotation: the old file under a new name, still open at offset 3,
  and a new file under the watched name; and the event that reports the new file.\<close>

definition rotated_sys :: sys where
  "rotated_sys = \<lparr>names = [''send/@4000old'' \<mapsto> 0, ''send/current'' \<mapsto> 1],
     contents = [0 \<mapsto> ''ab'' @ [NL] @ ''cd'' @ [NL], 1 \<mapsto> ''xy'' @ [NL]],
     fds = [Some (0, 3)], script = [], last_errno = None\<rparr>"

definition created_current :: inotify_event where
  "created_current = \<lparr>ev_wd = 1, ev_len = 16, ev_name = ''current''\<rparr>"

text \<open>A watch of the queue beside the log watch, as \<open>append_queue_watcher\<close> adds it.\<close>

definition idle_queue :: "(string list, unit) fs_watch" where
  "idle_queue = (fresh_watch 8 (- 1))\<lparr>wtype := WATCH_QUEUE, dir_name := None,
     file_name := None, watch_dir := - 1\<rparr>"

lemma sys_read_succeeds:
  assumes "fd_lookup s f = Some (ino, off)" and "reads_succeed (script s)" and "0 < count"
    and "sys_read s f count = (ret, bs, s')"
  shows "fd_lookup s' f \<noteq> None" and "reads_succeed (script s')"
    and "\<not> 0 < ret \<Longrightarrow> unread s f = [] \<and> unread s' f = []"
proof -
  from assms(1) have rng: "0 \<le> f" "nat f < length (fds s)"
    by (auto simp: fd_lookup_def split: if_splits)
  from assms(2) have nf: "\<And>e rest. script s \<noteq> Fail e # rest"
    by (auto simp: reads_succeed_def)
  define limit where
    "limit = (case script s of Deliver k # rest \<Rightarrow> min k count | _ \<Rightarrow> count)"
  define X where "X = take limit (drop off (file_bytes s ino))"
  have lim: "0 < limit"
    using assms(2,3) by (auto simp: limit_def reads_succeed_def split: list.splits read_outcome.splits)
  have "sys_read s f count =
          (int (length X), X,
           s\<lparr>fds := (fds s)[nat f := Some (ino, off + length X)], script := tl (script s)\<rparr>)"
    using assms(1) nf
    by (simp add: sys_read_def Let_def X_def limit_def split: list.splits read_outcome.splits)
  with assms(4) have ret: "ret = int (length X)"
    and s': "s' = s\<lparr>fds := (fds s)[nat f := Some (ino, off + length X)],
                     script := tl (script s)\<rparr>"
    by auto
  from s' rng have lk': "fd_lookup s' f = Some (ino, off + length X)"
    by (simp add: fd_lookup_def)
  then show "fd_lookup s' f \<noteq> None" by simp
  have "set (tl (script s)) \<subseteq> set (script s)"
    by (cases "script s") auto
  with assms(2) show "reads_succeed (script s')"
    unfolding s' by (auto simp: reads_succeed_def)
  have fb: "file_bytes s' ino = file_bytes s ino"
    using s' by (simp add: file_bytes_def)
  show "unread s f = [] \<and> unread s' f = []" if "\<not> 0 < ret"
  proof -
    from that ret have "X = []" by simp
    with lim have "drop off (file_bytes s ino) = []"
      by (auto simp: X_def)
    with assms(1) lk' fb \<open>X = []\<close> show ?thesis
      by (simp add: unread_def)
  qed
qed

lemma read_loop_drains:
  fixes w :: "('d, 'o) fs_watch"
  shows "buffered w < length (buf w) \<Longrightarrow> fd_lookup s (fd w) \<noteq> None \<Longrightarrow>
     reads_succeed (script s) \<Longrightarrow> read_loop s w = (s', w') \<Longrightarrow> unread s' (fd w) = []"
proof (induction s w rule: read_loop_cases)
  case (more s w ret bs s1)
  define w2 where "w2 = w\<lparr>buf := store (buf w) (buffered w) bs, buffered := 0\<rparr>"
  define w3 where "w3 = scan_lines w2 0 (nat ret + buffered w)"
  obtain ino off where lk: "fd_lookup s (fd w) = Some (ino, off)"
    using more.prems(2) by (cases "fd_lookup s (fd w)") auto
  have cnt: "0 < length (buf w) - buffered w"
    using more.prems(1) by simp
  note rs = sys_read_succeeds(1,2) [OF lk more.prems(3) cnt more.hyps(1)]
  note rp = sys_read_pos [OF more.hyps(1) more.hyps(2)]
  have fit: "buffered w + length bs \<le> length (buf w)"
    using rp(4) more.prems(1) by simp
  then have l2: "length (buf w2) = length (buf w)"
    using more.prems(1) by (simp add: w2_def store_def)
  have pos: "0 < length (buf w)" using more.prems(1) by linarith
  have "buffered w3 < length (buf w3) \<and> length (buf w3) = length (buf w2)"
    unfolding w3_def
    by (rule scan_lines_bound) (use fit l2 rp(1) pos in \<open>simp_all add: w2_def\<close>)
  then have b3: "buffered w3 < length (buf w3)" by simp
  have fd3: "fd w3 = fd w"
    by (simp add: w3_def w2_def scan_lines_fd)
  have rl: "read_loop s1 w3 = (s', w')"
    using more.prems(4) read_loop_more [OF more.hyps(1) more.hyps(2)]
    by (simp add: w3_def w2_def)
  from more.IH [folded w2_def, folded w3_def, OF b3 _ rs(2) rl] rs(1) fd3
  show ?case by simp
next
  case (stop s w ret bs s1)
  obtain ino off where lk: "fd_lookup s (fd w) = Some (ino, off)"
    using stop.prems(2) by (cases "fd_lookup s (fd w)") auto
  have cnt: "0 < length (buf w) - buffered w"
    using stop.prems(1) by simp
  from sys_read_succeeds(3) [OF lk stop.prems(3) cnt stop.hyps(1) stop.hyps(2)]
    stop.prems(4) read_loop_stop [OF stop.hyps]
  show ?case by simp
qed

lemma read_log_file_drains:
  fixes w :: "('d, 'o) fs_watch"
  assumes "read_log_file s w = (e, s', w')" and "buffered w < length (buf w)"
    and "fd_lookup s (fd w) \<noteq> None" and "reads_succeed (script s)"
  shows "unread s' (fd w) = []" and "consumed s s' (fd w) = unread s (fd w)"
proof -
  from assms(3) have "fd w \<noteq> - 1"
    by (auto simp: fd_lookup_def split: if_splits)
  with assms(1) have "read_loop s w = (s', w')"
    by (auto simp: read_log_file_def split: prod.splits)
  from read_loop_drains [OF assms(2,3,4) this] show "unread s' (fd w) = []" .
  then show "consumed s s' (fd w) = unread s (fd w)"
    by (simp add: consumed_def)
qed

lemma sys_open_other:
  assumes "sys_open s path = (f, s')" and "g \<noteq> f"
  shows "fd_lookup s' g = fd_lookup s g"
proof (cases "names s path")
  case None
  with assms show ?thesis by (auto simp: sys_open_def fd_lookup_def)
next
  case (Some ino)
  define n where "n = free_slot (fds s)"
  from assms(1) Some have f: "f = int n"
    and s': "s' = s\<lparr>fds := (if n < length (fds s) then (fds s)[n := Some (ino, 0)]
                            else fds s @ [Some (ino, 0)])\<rparr>"
    by (auto simp: sys_open_def Let_def n_def)
  have le: "n \<le> length (fds s)"
    unfolding n_def by (rule free_slot_le)
  show ?thesis
  proof (cases "0 \<le> g")
    case False
    then show ?thesis by (simp add: fd_lookup_def)
  next
    case True
    with assms(2) f have ne: "nat g \<noteq> n" by auto
    with le show ?thesis
      unfolding s' by (auto simp: fd_lookup_def nth_append)
  qed
qed

lemma sys_close_lookup: "sys_close s f = (r, s') \<Longrightarrow> fd_lookup s' f = None"
  by (auto simp: sys_close_def fd_lookup_def split: option.splits if_splits)

lemma process_fs_event_append:
  "process_fs_event ev s (a @ b) =
     (case process_fs_event ev s a of
        None \<Rightarrow> None
      | Some (s1, a1) \<Rightarrow>
          (case process_fs_event ev s1 b of
             None \<Rightarrow> None
           | Some (s2, b1) \<Rightarrow> Some (s2, a1 @ b1)))"
  by (induction a arbitrary: s) (auto split: option.splits)

lemma process_fs_event_others:
  "\<forall>x \<in> set ws. watch_dir x \<noteq> ev_wd ev \<Longrightarrow> process_fs_event ev s ws = Some (s, ws)"
  by (induction ws) (auto simp: process_fs_event_item_def)

lemma process_fs_event_at:
  assumes "i < length watchers"
    and "\<forall>j < length watchers. j \<noteq> i \<longrightarrow> watch_dir (watchers ! j) \<noteq> ev_wd ev"
    and "process_fs_event_item ev s (watchers ! i) = Some (s2, item2)"
  shows "process_fs_event ev s watchers = Some (s2, watchers[i := item2])"
proof -
  have a: "\<forall>x \<in> set (take i watchers). watch_dir x \<noteq> ev_wd ev"
  proof
    fix x assume "x \<in> set (take i watchers)"
    then obtain j where "j < i" "x = watchers ! j"
      using assms(1) by (auto simp: in_set_conv_nth)
    with assms(1,2) show "watch_dir x \<noteq> ev_wd ev" by auto
  qed
  have b: "\<forall>x \<in> set (drop (Suc i) watchers). watch_dir x \<noteq> ev_wd ev"
  proof
    fix x assume "x \<in> set (drop (Suc i) watchers)"
    then obtain j where "j < length watchers - Suc i" "x = watchers ! (Suc i + j)"
      by (auto simp: in_set_conv_nth)
    with assms(2) show "watch_dir x \<noteq> ev_wd ev" by auto
  qed
  have "process_fs_event ev s (take i watchers @ watchers ! i # drop (Suc i) watchers) =
        Some (s2, take i watchers @ item2 # drop (Suc i) watchers)"
    unfolding process_fs_event_append
    by (simp add: process_fs_event_others [OF a] process_fs_event_others [OF b] assms(3))
  then show ?thesis
    using assms(1) by (simp add: id_take_nth_drop [symmetric] upd_conv_take_nth_drop)
qed


text \<open>
  Claim C8. \<open>process_fs_event\<close> goes through the watches; on an event whose watch
  descriptor is that of the watch \<open>item\<close> and of no other, and whose name is the watched
  file's name, it first runs \<open>read_log_file\<close> on the file that the watch has open, then
  closes that descriptor and opens the file of that name in the watch's directory; the
  other watches are as they were. The new descriptor is at offset 0 of the file that the
  name denotes, all of which is still to read, and the old descriptor is closed or is
  the new one. When the reads succeed, the old file has been read to its end before it
  is closed, and its complete lines (short ones, the watch not skipping) have been handed
  to \<open>process\<close>. At creation, \<open>prepare_watcher\<close> leaves the descriptor at the end of the
  file, with nothing to read.
\<close>

theorem rotation_reopens_at_start_creation_at_end:
  fixes watchers :: "('d, 'o) fs_watch list" and f :: "('d, 'o) stat_func"
  shows
   "(i < length watchers \<and> item = watchers ! i \<and>
     (\<forall>j < length watchers. j \<noteq> i \<longrightarrow> watch_dir (watchers ! j) \<noteq> ev_wd ev) \<and>
     ev_wd ev = watch_dir item \<and> ev_len ev \<noteq> 0 \<and> file_name item = Some (ev_name ev) \<and>
     dir_name item = Some dir \<and> names s (dir @ ''/'' @ ev_name ev) = Some ino \<and>
     read_log_file s item = (e, sd, drained) \<longrightarrow>
       (\<exists>fd' s2. process_fs_event ev s watchers = Some (s2, watchers[i := drained\<lparr>fd := fd'\<rparr>]) \<and>
                  fd_lookup s2 fd' = Some (ino, 0) \<and> unread s2 fd' = file_bytes s ino \<and>
                  (fd' \<noteq> fd item \<longrightarrow> fd_lookup s2 (fd item) = None)) \<and>
       (buffered item < length (buf item) \<and> fd_lookup s (fd item) \<noteq> None \<and>
        reads_succeed (script s) \<longrightarrow>
          unread sd (fd item) = [] \<and> consumed s sd (fd item) = unread s (fd item) \<and>
          (skip item = DO_NOT_SKIP \<and> NL \<notin> set (pending item) \<and>
           all_short (length (buf item)) (pending item @ unread s (fd item)) \<longrightarrow>
             data drained = dispatch_all (func item) (data item)
                            (map cstr (stream_lines (pending item @ unread s (fd item)))) \<and>
             pending drained = stream_rest (pending item @ unread s (fd item))))) \<and>
    (add_watch dir \<noteq> - 1 \<and> init f = Some d \<and> names s (dir @ ''/'' @ ''current'') = Some ino \<longrightarrow>
       (\<exists>s' w. prepare_watcher cap add_watch s dir f = (ND_SUCCESS, s', Some w) \<and>
               fd_lookup s' (fd w) = Some (ino, length (file_bytes s ino)) \<and>
               unread s' (fd w) = []))"
proof (intro conjI impI)
  assume h: "i < length watchers \<and> item = watchers ! i \<and>
     (\<forall>j < length watchers. j \<noteq> i \<longrightarrow> watch_dir (watchers ! j) \<noteq> ev_wd ev) \<and>
     ev_wd ev = watch_dir item \<and> ev_len ev \<noteq> 0 \<and> file_name item = Some (ev_name ev) \<and>
     dir_name item = Some dir \<and> names s (dir @ ''/'' @ ev_name ev) = Some ino \<and>
     read_log_file s item = (e, sd, drained)"
  then have r: "read_log_file s item = (e, sd, drained)" and it: "item = watchers ! i"
    and i: "i < length watchers"
    and ot: "\<forall>j < length watchers. j \<noteq> i \<longrightarrow> watch_dir (watchers ! j) \<noteq> ev_wd ev"
    and hw: "ev_wd ev = watch_dir item" and hl: "ev_len ev \<noteq> 0"
    and hf: "file_name item = Some (ev_name ev)" and hd: "dir_name item = Some dir"
    and hn: "names s (dir @ ''/'' @ ev_name ev) = Some ino"
    by blast+
  obtain rc sc where c: "sys_close sd (fd drained) = (rc, sc)"
    by (cases "sys_close sd (fd drained)") auto
  obtain fd' s2 where op: "sys_open sc (dir @ ''/'' @ ev_name ev) = (fd', s2)"
    by (cases "sys_open sc (dir @ ''/'' @ ev_name ev)") auto
  note fr = read_log_file_frame [OF r]
  note cf = sys_close_frame [OF c]
  have nm: "names sc (dir @ ''/'' @ ev_name ev) = Some ino"
    using hn fr cf by simp
  note ol = sys_open_lookup [OF nm op]
  have "reopen_log_file sd drained = Some (s2, drained\<lparr>fd := fd'\<rparr>)"
    using hf hd fr c op by (simp add: reopen_log_file_def)
  then have "process_fs_event_item ev s item = Some (s2, drained\<lparr>fd := fd'\<rparr>)"
    using hw hl hf r by (simp add: process_fs_event_item_def)
  then have "process_fs_event_item ev s (watchers ! i) = Some (s2, drained\<lparr>fd := fd'\<rparr>)"
    unfolding it .
  with i ot have p: "process_fs_event ev s watchers = Some (s2, watchers[i := drained\<lparr>fd := fd'\<rparr>])"
    by (rule process_fs_event_at)
  have "file_bytes s2 ino = file_bytes s ino"
    using ol fr cf by (simp add: file_bytes_def)
  then have u: "unread s2 fd' = file_bytes s ino"
    using ol by (simp add: unread_def)
  have cl: "fd' \<noteq> fd item \<Longrightarrow> fd_lookup s2 (fd item) = None"
  proof -
    assume "fd' \<noteq> fd item"
    then have "fd_lookup s2 (fd item) = fd_lookup sc (fd item)"
      using sys_open_other [OF op, of "fd item"] by simp
    also have "\<dots> = None"
      using sys_close_lookup [OF c] fr by simp
    finally show ?thesis .
  qed
  from p ol u cl
  show "\<exists>fd' s2. process_fs_event ev s watchers = Some (s2, watchers[i := drained\<lparr>fd := fd'\<rparr>]) \<and>
                  fd_lookup s2 fd' = Some (ino, 0) \<and> unread s2 fd' = file_bytes s ino \<and>
                  (fd' \<noteq> fd item \<longrightarrow> fd_lookup s2 (fd item) = None)"
    by (intro exI [of _ fd'] exI [of _ s2]) simp
  assume g: "buffered item < length (buf item) \<and> fd_lookup s (fd item) \<noteq> None \<and>
        reads_succeed (script s)"
  then have g1: "buffered item < length (buf item)" and g2: "fd_lookup s (fd item) \<noteq> None"
    and g3: "reads_succeed (script s)"
    by simp_all
  note dr = read_log_file_drains [OF r g1 g2 g3]
  show "unread sd (fd item) = []" by (rule dr(1))
  show "consumed s sd (fd item) = unread s (fd item)" by (rule dr(2))
  assume k: "skip item = DO_NOT_SKIP \<and> NL \<notin> set (pending item) \<and>
           all_short (length (buf item)) (pending item @ unread s (fd item))"
  then have k1: "skip item = DO_NOT_SKIP" and k2: "NL \<notin> set (pending item)"
    and k3: "all_short (length (buf item)) (pending item @ consumed s sd (fd item))"
    by (simp_all add: dr(2))
  from read_log_file_lines [OF r g1 k1 k2 k3]
  show "data drained = dispatch_all (func item) (data item)
                            (map cstr (stream_lines (pending item @ unread s (fd item))))"
    and "pending drained = stream_rest (pending item @ unread s (fd item))"
    by (simp_all add: dr(2))
next
  assume h: "add_watch dir \<noteq> - 1 \<and> init f = Some d \<and> names s (dir @ ''/'' @ ''current'') = Some ino"
  obtain fd' sd where op: "sys_open s (dir @ ''/'' @ ''current'') = (fd', sd)"
    by (cases "sys_open s (dir @ ''/'' @ ''current'')") auto
  from h have nm: "names s (dir @ ''/'' @ ''current'') = Some ino" by simp
  note ol = sys_open_lookup [OF nm op]
  then have rng: "0 \<le> fd'" "nat fd' < length (fds sd)"
    by (auto simp: fd_lookup_def split: if_splits)
  define s2 where "s2 = sd\<lparr>fds := (fds sd)[nat fd' := Some (ino, length (file_bytes sd ino))]\<rparr>"
  have ls: "sys_lseek_end sd fd' = (int (length (file_bytes sd ino)), s2)"
    using ol by (simp add: sys_lseek_end_def s2_def)
  define w :: "('d, 'o) fs_watch" where
    "w = \<lparr>wtype = WATCH_LOG_FILE, dir_name = Some dir, file_name = Some ''current'',
          watch_dir = add_watch dir, fd = fd', buf = replicate cap NUL, buffered = 0,
          skip = DO_NOT_SKIP, func = f, data = d, time = 0\<rparr>"
  have pw: "prepare_watcher cap add_watch s dir f = (ND_SUCCESS, s2, Some w)"
    using h op ls by (simp add: prepare_watcher_def w_def)
  have fb: "file_bytes s2 ino = file_bytes s ino" "file_bytes sd ino = file_bytes s ino"
    using ol by (simp_all add: file_bytes_def s2_def)
  have lk: "fd_lookup s2 (fd w) = Some (ino, length (file_bytes s ino))"
    using rng fb by (simp add: fd_lookup_def s2_def w_def)
  then have "unread s2 (fd w) = []"
    using fb by (simp add: unread_def)
  with pw lk show "\<exists>s' w. prepare_watcher cap add_watch s dir f = (ND_SUCCESS, s', Some w) \<and>
                    fd_lookup s' (fd w) = Some (ino, length (file_bytes s ino)) \<and>
                    unread s' (fd w) = []"
    by (intro exI [of _ s2] exI [of _ w]) simp
qed


theorem rotation_reopens_at_start_creation_at_end_witness:
  "map_option (\<lambda>(s2, ws). (fd_lookup s2 (fd (ws ! 0)), unread s2 (fd (ws ! 0)), data (ws ! 0),
                            ws ! 1))
     (process_fs_event created_current rotated_sys [fresh_watch 8 0, idle_queue]) =
     Some (Some (1, 0), ''xy'' @ [NL], [''cd''], idle_queue) \<and>
   unread (fst (snd (read_log_file rotated_sys (fresh_watch 8 0)))) 0 = [] \<and>
   (\<exists>s' w. prepare_watcher 8 (\<lambda>d. 1) rotated_sys ''send'' log_func = (ND_SUCCESS, s', Some w) \<and>
           fd_lookup s' (fd w) = Some (1, 3) \<and> unread s' (fd w) = [])"
proof -
  let ?S = rotated_sys
  let ?W = "fresh_watch 8 0"
  let ?R = "read_log_file ?S ?W"
  let ?ws = "[?W, idle_queue]"
  note t = rotation_reopens_at_start_creation_at_end
    [where ev = created_current and watchers = ?ws and i = 0 and item = ?W and dir = "''send''"
       and s = ?S and ino = 1 and e = "fst ?R" and sd = "fst (snd ?R)" and drained = "snd (snd ?R)"
       and add_watch = "\<lambda>d. 1" and f = log_func and d = "[]" and cap = 8]
  have o: "\<forall>j < length ?ws. j \<noteq> 0 \<longrightarrow> watch_dir (?ws ! j) \<noteq> ev_wd created_current"
    by (auto simp: less_Suc_eq idle_queue_def created_current_def)
  have h1: "ev_wd created_current = watch_dir ?W \<and> ev_len created_current \<noteq> 0 \<and>
      file_name ?W = Some (ev_name created_current) \<and> dir_name ?W = Some ''send'' \<and>
      names ?S (''send'' @ ''/'' @ ev_name created_current) = Some 1"
    by code_simp
  have h2: "(\<lambda>d::string. 1::int) ''send'' \<noteq> - 1 \<and> init log_func = Some [] \<and>
      names ?S (''send'' @ ''/'' @ ''current'') = Some 1"
    by code_simp
  have h3: "buffered ?W < length (buf ?W) \<and> fd_lookup ?S (fd ?W) \<noteq> None \<and>
      reads_succeed (script ?S)"
    by code_simp
  have h4: "skip ?W = DO_NOT_SKIP \<and> NL \<notin> set (pending ?W) \<and>
      all_short (length (buf ?W)) (pending ?W @ unread ?S (fd ?W))"
    by code_simp
  have r: "?R = (fst ?R, fst (snd ?R), snd (snd ?R))" by simp
  have f0: "fd ?W = 0" by code_simp
  from t o h1 r obtain fd' s2 where
    p: "process_fs_event created_current ?S ?ws = Some (s2, ?ws[0 := (snd (snd ?R))\<lparr>fd := fd'\<rparr>])"
    and l: "fd_lookup s2 fd' = Some (1, 0)"
    and u: "unread s2 fd' = file_bytes ?S 1"
    by auto
  from t o h1 r h3 h4 have
    dr: "unread (fst (snd ?R)) (fd ?W) = []"
    and dt: "data (snd (snd ?R)) = dispatch_all (func ?W) (data ?W)
               (map cstr (stream_lines (pending ?W @ unread ?S (fd ?W))))"
    by simp_all
  have fb: "file_bytes ?S 1 = ''xy'' @ [NL]" by code_simp
  have dv: "dispatch_all (func ?W) (data ?W)
               (map cstr (stream_lines (pending ?W @ unread ?S (fd ?W)))) = [''cd'']"
    by code_simp
  have a: "map_option (\<lambda>(s2, ws). (fd_lookup s2 (fd (ws ! 0)), unread s2 (fd (ws ! 0)),
                                    data (ws ! 0), ws ! 1))
     (process_fs_event created_current ?S ?ws) =
     Some (Some (1, 0), ''xy'' @ [NL], [''cd''], idle_queue)"
    unfolding p using l u fb dt dv by simp
  have fl: "length (file_bytes ?S 1) = 3" by code_simp
  from t h2 fl have b: "\<exists>s' w. prepare_watcher 8 (\<lambda>d. 1) ?S ''send'' log_func = (ND_SUCCESS, s', Some w) \<and>
           fd_lookup s' (fd w) = Some (1, 3) \<and> unread s' (fd w) = []"
    by simp
  from a dr f0 b show ?thesis by simp
qed

section \<open>The registries and the interval cycle of \<open>main\<close>\<close>

text \<open>
  An aggregator has the members \<open>type\<close>, \<open>func\<close>, \<open>data\<close> and \<open>time\<close> of a watch; they are
  written with \<open>a_\<close> here, since a record field is a constant of the theory. Its
  function table is called with other argument lists than a watch's: \<open>print_hdr()\<close>,
  \<open>print(data, last_update)\<close>, and \<open>aggregate(aggregator->data, watch->data)\<close>, whose
  result is the aggregator's accumulator after the call. \<open>'a\<close> is the accumulator of an
  aggregator.
\<close>

record ('a, 'd, 'o) aggr_func =
  a_init :: "'a option"
  a_print_hdr :: "'o \<Rightarrow> int \<times> 'o"
  a_print :: "'a \<Rightarrow> nat \<Rightarrow> 'o \<Rightarrow> int \<times> 'o"
  aggregate :: "'a \<Rightarrow> 'd \<Rightarrow> 'a"
  a_postprocess :: "('a \<Rightarrow> 'a) option"
  a_clear :: "'a \<Rightarrow> 'a"

record ('a, 'd, 'o) fs_watch_aggregator =
  a_type :: watch_type
  a_func :: "('a, 'd, 'o) aggr_func"
  a_data :: 'a
  a_time :: nat

text \<open>
  The variables of \<open>main\<close> that its loop works on, with the system, the sink and the
  clock: \<open>vector.c\<close> is not among the sources, and a vector is the list of its items in
  the order they were added.
\<close>

record ('a, 'd, 'o) plugin =
  os :: sys
  clock :: nat
  stdout :: 'o
  vector_watchers :: "('d, 'o) fs_watch list"
  vector_aggregators :: "('a, 'd, 'o) fs_watch_aggregator list"
  run :: bool

text \<open>
  Modelled from the spec: \<open>update_timestamp\<close> of \<open>timer.c\<close>, which is not among the
  sources. It returns the time elapsed since the stored time and stores the present time.
\<close>

definition update_timestamp :: "nat \<Rightarrow> nat \<Rightarrow> nat \<times> nat" where
  "update_timestamp now t = (now - t, now)"

text \<open>
  The inner loop of the interval cycle, over the aggregators. It counts in \<open>i\<close>, the
  variable that also counts the watches in the loop around it, so it is given \<open>i\<close> and
  returns it.
\<close>

function aggregate_loop ::
  "('d, 'o) fs_watch \<Rightarrow> ('a, 'd, 'o) fs_watch_aggregator list \<Rightarrow> nat \<Rightarrow>
     ('a, 'd, 'o) fs_watch_aggregator list \<times> nat" where
  "aggregate_loop watch ags i =
     (if i < length ags
      then (let aggregator = ags ! i;
                aggregator1 = (if a_type aggregator = wtype watch
                               then aggregator\<lparr>a_data :=
                                      aggregate (a_func aggregator) (a_data aggregator) (data watch)\<rparr>
                               else aggregator)
            in aggregate_loop watch (ags[i := aggregator1]) (i + 1))
      else (ags, i))"
  by pat_completeness auto

termination aggregate_loop
  by (relation "measure (\<lambda>(watch, ags, i). length ags - i)") auto

declare aggregate_loop.simps [simp del]

text \<open>
  The loop over the watches, from the value \<open>i\<close> of the counter. After the inner loop the
  counter holds what that loop left in it. A failing \<open>print\<close> clears \<open>run\<close> and leaves
  the loop. The loop need not end: its result is \<open>None\<close> then.
\<close>

partial_function (option) watchers_loop ::
  "('a, 'd, 'o) plugin \<Rightarrow> nat \<Rightarrow> ('a, 'd, 'o) plugin option" where
  "watchers_loop st i =
     (if i < length (vector_watchers st)
      then (let watch = vector_watchers st ! i;
                (s1, watch1) =
                  (if wtype watch = WATCH_LOG_FILE
                   then (case read_log_file (os st) watch of (e, s', w') \<Rightarrow> (s', w'))
                   else if wtype watch = WATCH_QUEUE
                   then (os st, watch\<lparr>data := process (func watch) None (data watch)\<rparr>)
                   else (os st, watch));
                (ags, i1) = aggregate_loop watch1 (vector_aggregators st) 0;
                watch2 = (case postprocess (func watch1) of
                            None \<Rightarrow> watch1
                          | Some pp \<Rightarrow> watch1\<lparr>data := pp (data watch1)\<rparr>);
                (last_update, t) = update_timestamp (clock st) (time watch2);
                watch3 = watch2\<lparr>time := t\<rparr>;
                (rc, out) = print (func watch3) (dir_name watch3) (data watch3) last_update (stdout st)
            in if rc \<noteq> 0
               then Some (st\<lparr>os := s1, stdout := out,
                             vector_watchers := (vector_watchers st)[i := watch3],
                             vector_aggregators := ags, run := False\<rparr>)
               else watchers_loop
                      (st\<lparr>os := s1, stdout := out,
                          vector_watchers := (vector_watchers st)
                            [i := watch3\<lparr>data := clear (func watch3) (data watch3)\<rparr>],
                          vector_aggregators := ags\<rparr>)
                      (i1 + 1))
      else Some st)"

declare watchers_loop.simps [code]

text \<open>The loop over the aggregators that follows; its counter is its own.\<close>

function aggregators_loop :: "('a, 'd, 'o) plugin \<Rightarrow> nat \<Rightarrow> ('a, 'd, 'o) plugin" where
  "aggregators_loop st i =
     (if i < length (vector_aggregators st)
      then (let aggregator = vector_aggregators st ! i;
                aggregator1 = (case a_postprocess (a_func aggregator) of
                                 None \<Rightarrow> aggregator
                               | Some pp \<Rightarrow> aggregator\<lparr>a_data := pp (a_data aggregator)\<rparr>);
                (last_update, t) = update_timestamp (clock st) (a_time aggregator1);
                aggregator2 = aggregator1\<lparr>a_time := t\<rparr>;
                (rc, out) = a_print (a_func aggregator2) (a_data aggregator2) last_update (stdout st)
            in if rc \<noteq> 0
               then st\<lparr>stdout := out,
                       vector_aggregators := (vector_aggregators st)[i := aggregator2],
                       run := False\<rparr>
               else aggregators_loop
                      (st\<lparr>stdout := out,
                          vector_aggregators := (vector_aggregators st)
                            [i := aggregator2\<lparr>a_data :=
                                   a_clear (a_func aggregator2) (a_data aggregator2)\<rparr>]\<rparr>)
                      (i + 1))
      else st)"
  by pat_completeness auto

termination aggregators_loop
  by (relation "measure (\<lambda>(st, i). length (vector_aggregators st) - i)") auto

declare aggregators_loop.simps [simp del]

text \<open>The interval cycle: what \<open>main\<close> does when the timer is ready.\<close>

definition interval_cycle :: "('a, 'd, 'o) plugin \<Rightarrow> ('a, 'd, 'o) plugin option" where
  "interval_cycle st =
     (case watchers_loop st 0 of None \<Rightarrow> None | Some st1 \<Rightarrow> Some (aggregators_loop st1 0))"

text \<open>One pass of the loop over the watches, in named parts, for the proofs: reading or
  ticking, the optional \<open>postprocess\<close>, and the whole pass up to \<open>print\<close>.\<close>

definition collect :: "('a, 'd, 'o) plugin \<Rightarrow> nat \<Rightarrow> sys \<times> ('d, 'o) fs_watch" where
  "collect st i =
     (let watch = vector_watchers st ! i
      in if wtype watch = WATCH_LOG_FILE
         then (case read_log_file (os st) watch of (e, s', w') \<Rightarrow> (s', w'))
         else if wtype watch = WATCH_QUEUE
         then (os st, watch\<lparr>data := process (func watch) None (data watch)\<rparr>)
         else (os st, watch))"

definition post :: "('d, 'o) fs_watch \<Rightarrow> ('d, 'o) fs_watch" where
  "post watch1 = (case postprocess (func watch1) of
                    None \<Rightarrow> watch1
                  | Some pp \<Rightarrow> watch1\<lparr>data := pp (data watch1)\<rparr>)"

definition watch_pass ::
  "('a, 'd, 'o) plugin \<Rightarrow> nat \<Rightarrow>
     sys \<times> ('d, 'o) fs_watch \<times> ('a, 'd, 'o) fs_watch_aggregator list \<times> nat \<times> int \<times> 'o" where
  "watch_pass st i =
     (let watch1 = snd (collect st i);
          al = aggregate_loop watch1 (vector_aggregators st) 0;
          watch3 = (post watch1)\<lparr>time := clock st\<rparr>;
          pr = print (func watch3) (dir_name watch3) (data watch3)
                 (clock st - time (post watch1)) (stdout st)
      in (fst (collect st i), watch3, fst al, snd al, fst pr, snd pr))"

lemma watchers_body_pass:
  "(if i < length (vector_watchers st)
      then (let watch = vector_watchers st ! i;
                (s1, watch1) =
                  (if wtype watch = WATCH_LOG_FILE
                   then (case read_log_file (os st) watch of (e, s', w') \<Rightarrow> (s', w'))
                   else if wtype watch = WATCH_QUEUE
                   then (os st, watch\<lparr>data := process (func watch) None (data watch)\<rparr>)
                   else (os st, watch));
                (ags, i1) = aggregate_loop watch1 (vector_aggregators st) 0;
                watch2 = (case postprocess (func watch1) of
                            None \<Rightarrow> watch1
                          | Some pp \<Rightarrow> watch1\<lparr>data := pp (data watch1)\<rparr>);
                (last_update, t) = update_timestamp (clock st) (time watch2);
                watch3 = watch2\<lparr>time := t\<rparr>;
                (rc, out) = print (func watch3) (dir_name watch3) (data watch3) last_update (stdout st)
            in if rc \<noteq> 0
               then Some (st\<lparr>os := s1, stdout := out,
                             vector_watchers := (vector_watchers st)[i := watch3],
                             vector_aggregators := ags, run := False\<rparr>)
               else loop
                      (st\<lparr>os := s1, stdout := out,
                          vector_watchers := (vector_watchers st)
                            [i := watch3\<lparr>data := clear (func watch3) (data watch3)\<rparr>],
                          vector_aggregators := ags\<rparr>)
                      (i1 + 1))
      else Some st) =
     (if i < length (vector_watchers st)
      then (case watch_pass st i of
              (s1, watch3, ags, i1, rc, out) \<Rightarrow>
                if rc \<noteq> 0
                then Some (st\<lparr>os := s1, stdout := out,
                              vector_watchers := (vector_watchers st)[i := watch3],
                              vector_aggregators := ags, run := False\<rparr>)
                else loop
                       (st\<lparr>os := s1, stdout := out,
                           vector_watchers := (vector_watchers st)
                             [i := watch3\<lparr>data := clear (func watch3) (data watch3)\<rparr>],
                           vector_aggregators := ags\<rparr>)
                       (i1 + 1))
      else Some st)"
  by (simp add: watch_pass_def collect_def post_def update_timestamp_def Let_def split_beta)

lemma watchers_loop_unfold:
  "watchers_loop st i =
     (if i < length (vector_watchers st)
      then (case watch_pass st i of
              (s1, watch3, ags, i1, rc, out) \<Rightarrow>
                if rc \<noteq> 0
                then Some (st\<lparr>os := s1, stdout := out,
                              vector_watchers := (vector_watchers st)[i := watch3],
                              vector_aggregators := ags, run := False\<rparr>)
                else watchers_loop
                       (st\<lparr>os := s1, stdout := out,
                           vector_watchers := (vector_watchers st)
                             [i := watch3\<lparr>data := clear (func watch3) (data watch3)\<rparr>],
                           vector_aggregators := ags\<rparr>)
                       (i1 + 1))
      else Some st)"
  by (subst watchers_loop.simps) (rule watchers_body_pass)

lemma aggregate_loop_result:
  "i \<le> length ags \<Longrightarrow> aggregate_loop watch ags i = (ags', i') \<Longrightarrow>
     i' = length ags \<and> length ags' = length ags"
proof (induction watch ags i rule: aggregate_loop.induct)
  case (1 watch ags i)
  show ?case
  proof (cases "i < length ags")
    case True
    with "1.prems" "1.IH" [OF True refl refl] show ?thesis
      by (subst (asm) aggregate_loop.simps) (simp add: Let_def)
  next
    case False
    with "1.prems" show ?thesis
      by (subst (asm) aggregate_loop.simps) auto
  qed
qed

lemma collect_func: "func (snd (collect st i)) = func (vector_watchers st ! i)"
proof (cases "wtype (vector_watchers st ! i) = WATCH_LOG_FILE")
  case True
  obtain e s' w' where rl: "read_log_file (os st) (vector_watchers st ! i) = (e, s', w')"
    by (cases "read_log_file (os st) (vector_watchers st ! i)") auto
  with True read_log_file_frame [OF rl] show ?thesis
    by (simp add: collect_def Let_def)
next
  case False
  then show ?thesis by (simp add: collect_def Let_def)
qed

lemma post_func: "func (post w) = func w"
  by (simp add: post_def split: option.splits)

lemma watch_pass_facts:
  assumes "watch_pass st i = (s1, watch3, ags, i1, rc, out)"
  shows "i1 = length (vector_aggregators st)"
    and "length ags = length (vector_aggregators st)"
    and "func watch3 = func (vector_watchers st ! i)"
    and "\<exists>n d t. rc = fst (print (func (vector_watchers st ! i)) n d t (stdout st))"
proof -
  obtain ags0 i0 where al:
    "aggregate_loop (snd (collect st i)) (vector_aggregators st) 0 = (ags0, i0)"
    by (cases "aggregate_loop (snd (collect st i)) (vector_aggregators st) 0") auto
  from aggregate_loop_result [OF _ al] have i0: "i0 = length (vector_aggregators st)"
    and l0: "length ags0 = length (vector_aggregators st)" by simp_all
  from assms al have "i1 = i0" "ags = ags0"
    and w3: "watch3 = (post (snd (collect st i)))\<lparr>time := clock st\<rparr>"
    and rc: "rc = fst (print (func watch3) (dir_name watch3) (data watch3)
                 (clock st - time (post (snd (collect st i)))) (stdout st))"
    by (auto simp: watch_pass_def Let_def)
  with i0 l0 show "i1 = length (vector_aggregators st)"
    and "length ags = length (vector_aggregators st)"
    by simp_all
  show f3: "func watch3 = func (vector_watchers st ! i)"
    by (simp add: w3 post_func collect_func)
  show "\<exists>n d t. rc = fst (print (func (vector_watchers st ! i)) n d t (stdout st))"
    using rc f3 by auto
qed

text \<open>
  A watch whose \<open>print\<close> never fails, at the index that the inner loop leaves behind:
  from there the loop over the watches comes back to the same index for ever.
\<close>

definition stuck :: "('a, 'd, 'o) plugin \<Rightarrow> nat \<Rightarrow> bool" where
  "stuck st i =
     (i = length (vector_aggregators st) + 1 \<and> i < length (vector_watchers st) \<and>
      (\<forall>n d t out. fst (print (func (vector_watchers st ! i)) n d t out) = 0))"

lemma stuck_never_returns:
  assumes "watchers_loop st i = Some y"
  shows "\<not> stuck st i"
proof (rule watchers_loop.raw_induct [where P = "\<lambda>st i y. \<not> stuck st i", OF _ assms],
    goal_cases)
  case (1 loop st i y)
  show ?case
  proof
    assume s: "stuck st i"
    then have lt: "i < length (vector_watchers st)"
      by (simp add: stuck_def)
    obtain s1 watch3 ags i1 rc out where wp: "watch_pass st i = (s1, watch3, ags, i1, rc, out)"
      by (cases "watch_pass st i") auto
    note f = watch_pass_facts [OF wp]
    from f(4) s have rc: "rc = 0"
      by (auto simp: stuck_def)
    define st' where "st' = st\<lparr>os := s1, stdout := out,
        vector_watchers := (vector_watchers st)
          [i := watch3\<lparr>data := clear (func watch3) (data watch3)\<rparr>],
        vector_aggregators := ags\<rparr>"
    have nxt: "i1 + 1 = i"
      using f(1) s by (simp add: stuck_def)
    have "stuck st' i"
      using s f(2,3) lt by (auto simp: stuck_def st'_def)
    moreover have "loop st' i = Some y"
      using 1(2) [unfolded watchers_body_pass] lt wp rc nxt by (simp add: st'_def)
    ultimately show False
      using 1(1) by simp
  qed
qed

lemma stuck_diverges: "stuck st i \<Longrightarrow> watchers_loop st i = None"
  using stuck_never_returns [of st i] by (cases "watchers_loop st i") auto

lemma cycle_never_ends:
  assumes "length (vector_aggregators st) + 1 < length (vector_watchers st)"
    and "\<forall>n d t out. fst (print (func (vector_watchers st ! 0)) n d t out) = 0"
    and "\<forall>n d t out.
           fst (print (func (vector_watchers st ! (length (vector_aggregators st) + 1))) n d t out) = 0"
  shows "interval_cycle st = None"
proof -
  obtain s1 watch3 ags i1 rc out where wp: "watch_pass st 0 = (s1, watch3, ags, i1, rc, out)"
    by (cases "watch_pass st 0") auto
  note f = watch_pass_facts [OF wp]
  from f(4) assms(2) have rc: "rc = 0" by auto
  define st' where "st' = st\<lparr>os := s1, stdout := out,
      vector_watchers := (vector_watchers st)
        [0 := watch3\<lparr>data := clear (func watch3) (data watch3)\<rparr>],
      vector_aggregators := ags\<rparr>"
  have pos: "0 < length (vector_watchers st)"
    using assms(1) by linarith
  have "watchers_loop st 0 = watchers_loop st' (i1 + 1)"
    using pos wp rc by (subst watchers_loop_unfold) (simp add: st'_def)
  moreover have "stuck st' (i1 + 1)"
    using assms(1,3) f(1,2) by (auto simp: stuck_def st'_def)
  ultimately have "watchers_loop st 0 = None"
    by (simp add: stuck_diverges)
  then show ?thesis
    by (simp add: interval_cycle_def)
qed

text \<open>
  Concrete registries. The collector \<open>count_func\<close> counts its calls of \<open>process\<close> and
  prints its name and count; its sink is the list of what was printed. The aggregator
  \<open>sum_func\<close> adds the counts of the watches: no \<open>aggregate\<close> function is among the
  sources, and the specification has it fold a watch's accumulator into the aggregator's.
  \<open>two_logs\<close> has a log of three lines under \<open>send\<close> and one of five under \<open>smtp\<close>,
  both open at their start. \<open>plugin_of\<close> is the state of \<open>main\<close> before a cycle, with
  the one aggregator that \<open>append_ratelimit_aggregator\<close> adds.
\<close>

definition count_func :: "(nat, (string \<times> nat) list) stat_func" where
  "count_func = \<lparr>init = Some 0, print_hdr = (\<lambda>n out. (0, out)),
     print = (\<lambda>n d t out. (0, out @ [(case n of None \<Rightarrow> ''queue'' | Some x \<Rightarrow> x, d)])),
     process = (\<lambda>l d. d + 1), postprocess = None, clear = (\<lambda>d. 0)\<rparr>"

definition sum_func :: "(nat, nat, (string \<times> nat) list) aggr_func" where
  "sum_func = \<lparr>a_init = Some 0, a_print_hdr = (\<lambda>out. (0, out)),
     a_print = (\<lambda>a t out. (0, out @ [(''ratelimitspp'', a)])),
     aggregate = (\<lambda>a d. a + d), a_postprocess = None, a_clear = (\<lambda>a. 0)\<rparr>"

definition log_watch :: "string \<Rightarrow> int \<Rightarrow> (nat, (string \<times> nat) list) fs_watch" where
  "log_watch dir f = \<lparr>wtype = WATCH_LOG_FILE, dir_name = Some dir, file_name = Some ''current'',
     watch_dir = f + 1, fd = f, buf = replicate 16 NUL, buffered = 0, skip = DO_NOT_SKIP,
     func = count_func, data = 0, time = 0\<rparr>"

definition queue_watch :: "(nat, (string \<times> nat) list) fs_watch" where
  "queue_watch = \<lparr>wtype = WATCH_QUEUE, dir_name = None, file_name = None,
     watch_dir = - 1, fd = - 1, buf = replicate 16 NUL, buffered = 0, skip = DO_NOT_SKIP,
     func = count_func, data = 0, time = 0\<rparr>"

definition two_logs :: sys where
  "two_logs = \<lparr>names = [''send/current'' \<mapsto> 0, ''smtp/current'' \<mapsto> 1],
     contents = [0 \<mapsto> [CHR ''a'', NL, CHR ''b'', NL, CHR ''c'', NL],
                 1 \<mapsto> [CHR ''p'', NL, CHR ''q'', NL, CHR ''r'', NL, CHR ''s'', NL, CHR ''t'', NL]],
     fds = [Some (0, 0), Some (1, 0)], script = [], last_errno = None\<rparr>"

definition plugin_of ::
  "(nat, (string \<times> nat) list) fs_watch list \<Rightarrow> (nat, nat, (string \<times> nat) list) plugin" where
  "plugin_of ws = \<lparr>os = two_logs, clock = 10, stdout = [], vector_watchers = ws,
     vector_aggregators = [\<lparr>a_type = WATCH_LOG_FILE, a_func = sum_func, a_data = 0, a_time = 0\<rparr>],
     run = True\<rparr>"


text \<open>
  Claim C2 fails on the code. The registry holds a log watch and the queue watch, as
  \<open>main\<close> builds it when one log directory is found. In the interval cycle the inner loop
  over the one aggregator leaves the shared counter at 1, the increment of the outer loop
  makes it 2, and the loop over the watches ends: the queue watch is not ticked, not
  printed and keeps its time stamp, and only the first watch and the aggregator are
  printed.
\<close>

theorem second_watch_never_processed:
  "map_option (\<lambda>st. (stdout st, map time (vector_watchers st)))
     (interval_cycle (plugin_of [log_watch ''send'' 0, queue_watch])) =
   Some ([(''send'', 3), (''ratelimitspp'', 3)], [10, 0])"
  by code_simp

text \<open>
  Claim C5 fails on the code, by the same shared counter. With the two log watches alone,
  only the first is read and folded: the aggregator prints 3, not 8, and the five lines of
  the second log stay unread. With the queue watch as third watch the loop over the
  watches comes back to the third watch for ever, and the cycle never ends.
\<close>

theorem aggregator_misses_second_watch:
  "map_option (\<lambda>st. (stdout st, map data (vector_watchers st), unread (os st) 1))
     (interval_cycle (plugin_of [log_watch ''send'' 0, log_watch ''smtp'' 1])) =
   Some ([(''send'', 3), (''ratelimitspp'', 3)], [0, 0],
         [CHR ''p'', NL, CHR ''q'', NL, CHR ''r'', NL, CHR ''s'', NL, CHR ''t'', NL]) \<and>
   interval_cycle (plugin_of [log_watch ''send'' 0, log_watch ''smtp'' 1, queue_watch]) = None"
proof -
  have "map_option (\<lambda>st. (stdout st, map data (vector_watchers st), unread (os st) 1))
     (interval_cycle (plugin_of [log_watch ''send'' 0, log_watch ''smtp'' 1])) =
   Some ([(''send'', 3), (''ratelimitspp'', 3)], [0, 0],
         [CHR ''p'', NL, CHR ''q'', NL, CHR ''r'', NL, CHR ''s'', NL, CHR ''t'', NL])"
    by code_simp
  moreover have
    "interval_cycle (plugin_of [log_watch ''send'' 0, log_watch ''smtp'' 1, queue_watch]) = None"
    by (rule cycle_never_ends)
       (simp_all add: plugin_of_def log_watch_def queue_watch_def count_func_def)
  ultimately show ?thesis by simp
qed

section \<open>\<open>process_fs_event_queue\<close> and the event loop of \<open>main\<close>\<close>

text \<open>
  A value \<open>Inl c\<close> stands for \<open>exit(c)\<close>. What a read of the inotify descriptor gives is
  the environment's choice: some events, none (a return of 0), or an error; past the
  end of the list the read would block, the descriptor being non-blocking.
\<close>

datatype inotify_read = IN_events "inotify_event list" | IN_fail errno

fun process_fs_events ::
  "inotify_event list \<Rightarrow> sys \<Rightarrow> ('d, 'o) fs_watch list \<Rightarrow>
     (sys \<times> ('d, 'o) fs_watch list) option" where
  "process_fs_events [] s watchers = Some (s, watchers)"
| "process_fs_events (ev # evs) s watchers =
     (case process_fs_event ev s watchers of
        None \<Rightarrow> None
      | Some (s1, watchers1) \<Rightarrow> process_fs_events evs s1 watchers1)"

fun process_fs_event_queue ::
  "inotify_read list \<Rightarrow> sys \<Rightarrow> ('d, 'o) fs_watch list \<Rightarrow>
     (int + sys \<times> ('d, 'o) fs_watch list) option" where
  "process_fs_event_queue [] s watchers = Some (Inr (s, watchers))"
| "process_fs_event_queue (IN_fail e # rs) s watchers =
     (if e \<noteq> EAGAIN then Some (Inl 1) else Some (Inr (s, watchers)))"
| "process_fs_event_queue (IN_events evs # rs) s watchers =
     (if evs = [] then Some (Inr (s, watchers))
      else (case process_fs_events evs s watchers of
              None \<Rightarrow> None
            | Some (s1, watchers1) \<Rightarrow> process_fs_event_queue rs s1 watchers1))"

text \<open>
  One return of \<open>poll\<close>: what the world did to the files and what the clock shows by
  then, the result of \<open>poll\<close> (for a positive result, whether the signal, the
  notification and the timer descriptors are readable), and what the reads of the
  inotify descriptor will give.
\<close>

datatype poll_result = Poll_failed | Poll_timeout | Poll_ready bool bool bool

record wakeup =
  wk_world :: "sys \<Rightarrow> sys"
  wk_clock :: nat
  wk_poll :: poll_result
  wk_inotify :: "inotify_read list"

text \<open>
  The body of the loop \<open>for (run = 1; run;)\<close> for one return of \<open>poll\<close>: \<open>Inl c\<close>
  where it calls \<open>exit(c)\<close>, \<open>None\<close> where it does not come to an end, else the state
  with which the loop goes on or, \<open>run\<close> being cleared, ends.
\<close>

definition wakeup_body ::
  "('a, 'd, 'o) plugin \<Rightarrow> wakeup \<Rightarrow> (int + ('a, 'd, 'o) plugin) option" where
  "wakeup_body st w =
     (let st0 = st\<lparr>os := wk_world w (os st), clock := wk_clock w\<rparr>
      in case wk_poll w of
           Poll_failed \<Rightarrow> Some (Inr st0)
         | Poll_timeout \<Rightarrow> Some (Inr st0)
         | Poll_ready sig fs tm \<Rightarrow>
             (if sig then Some (Inr (st0\<lparr>run := False\<rparr>))
              else (case (if fs
                          then process_fs_event_queue (wk_inotify w) (os st0)
                                 (vector_watchers st0)
                          else Some (Inr (os st0, vector_watchers st0))) of
                      None \<Rightarrow> None
                    | Some (Inl c) \<Rightarrow> Some (Inl c)
                    | Some (Inr (s1, watchers1)) \<Rightarrow>
                        (let st1 = st0\<lparr>os := s1, vector_watchers := watchers1\<rparr>
                         in if tm
                            then (case interval_cycle st1 of
                                    None \<Rightarrow> None
                                  | Some st2 \<Rightarrow> Some (Inr st2))
                            else Some (Inr st1)))))"

text \<open>
  The loop over the returns of \<open>poll\<close> that the environment provides. When they are
  used up and \<open>run\<close> is still set, \<open>poll\<close> does not return and neither does the loop:
  the result is \<open>None\<close>, as when an interval cycle does not end.
\<close>

fun event_loop ::
  "('a, 'd, 'o) plugin \<Rightarrow> wakeup list \<Rightarrow> (int + ('a, 'd, 'o) plugin) option" where
  "event_loop st [] = (if run st then None else Some (Inr st))"
| "event_loop st (w # ws) =
     (if \<not> run st then Some (Inr st)
      else (case wakeup_body st w of
              None \<Rightarrow> None
            | Some (Inl c) \<Rightarrow> Some (Inl c)
            | Some (Inr st1) \<Rightarrow> event_loop st1 ws))"

text \<open>
  The state of the loop after the wake-ups \<open>ws\<close>, when it has gone through the body for
  each of them, \<open>run\<close> being set before each.
\<close>

fun after_wakeups ::
  "('a, 'd, 'o) plugin \<Rightarrow> wakeup list \<Rightarrow> ('a, 'd, 'o) plugin option" where
  "after_wakeups st [] = Some st"
| "after_wakeups st (w # ws) =
     (if \<not> run st then None
      else (case wakeup_body st w of
              Some (Inr st1) \<Rightarrow> after_wakeups st1 ws
            | _ \<Rightarrow> None))"

section \<open>The start of \<open>main\<close>\<close>

text \<open>
  What \<open>main\<close> is given besides the files: its arguments, the answers of the system
  calls of the start, the entries of the working directory with the result of
  \<open>is_directory\<close> for each, the capacity of a line buffer, and the function tables of
  \<open>send.c\<close>, \<open>smtp.c\<close>, \<open>queue.c\<close> and \<open>ratelimitspp.c\<close>.
\<close>

record ('a, 'd, 'o) start =
  argv :: "string list"
  chdir_result :: "string \<Rightarrow> int"
  timerfd_result :: int
  signalfd_result :: int
  inotify_init1_result :: int
  opendir_ok :: bool
  readdir_entries :: "(string \<times> int) list"
  inotify_add_watch_result :: "string \<Rightarrow> int"
  sizeof_buf :: nat
  send_func :: "('d, 'o) stat_func"
  smtp_func :: "('d, 'o) stat_func"
  queue_func :: "('d, 'o) stat_func"
  ratelimitspp_func :: "('a, 'd, 'o) aggr_func"

definition DEFAULT_PATH :: string where
  "DEFAULT_PATH = ''/var/log/qmail''"

text \<open>
  Modelled from the spec: \<open>prepare_timer_fd\<close> of \<open>timer.c\<close> and \<open>prepare_signal_fd\<close> of
  \<open>signal.c\<close>, which are not among the sources. A failure to set the descriptor up is
  fatal, with exit code 1, as in \<open>prepare_fs_event_fd\<close>.
\<close>

definition prepare_timer_fd :: "int \<Rightarrow> int + int" where
  "prepare_timer_fd r = (if r = - 1 then Inl 1 else Inr r)"

definition prepare_signal_fd :: "int \<Rightarrow> int + int" where
  "prepare_signal_fd r = (if r = - 1 then Inl 1 else Inr r)"

definition prepare_fs_event_fd :: "int \<Rightarrow> int + int" where
  "prepare_fs_event_fd r = (if r = - 1 then Inl 1 else Inr r)"

text \<open>The \<open>while\<close> loop of \<open>detect_log_dirs\<close> over the directory entries.\<close>

fun detect_log_dirs_loop ::
  "('a, 'd, 'o) start \<Rightarrow> sys \<Rightarrow> ('d, 'o) fs_watch list \<Rightarrow> (string \<times> int) list \<Rightarrow>
     sys \<times> ('d, 'o) fs_watch list" where
  "detect_log_dirs_loop E s v [] = (s, v)"
| "detect_log_dirs_loop E s v ((d_name, is_dir) # entries) =
     (if (case d_name of [] \<Rightarrow> False | c # cs \<Rightarrow> c = CHR ''.'')
      then detect_log_dirs_loop E s v entries
      else if is_dir = 1
      then (if strstr d_name ''send'' \<noteq> None
            then (case prepare_watcher (sizeof_buf E) (inotify_add_watch_result E) s d_name
                         (send_func E) of
                    (e, s1, w) \<Rightarrow>
                      detect_log_dirs_loop E s1
                        (case w of Some watch \<Rightarrow> if e = ND_SUCCESS then v @ [watch] else v
                         | None \<Rightarrow> v) entries)
            else if strstr d_name ''smtp'' \<noteq> None
            then (case prepare_watcher (sizeof_buf E) (inotify_add_watch_result E) s d_name
                         (smtp_func E) of
                    (e, s1, w) \<Rightarrow>
                      detect_log_dirs_loop E s1
                        (case w of Some watch \<Rightarrow> if e = ND_SUCCESS then v @ [watch] else v
                         | None \<Rightarrow> v) entries)
            else detect_log_dirs_loop E s v entries)
      else detect_log_dirs_loop E s v entries)"

definition detect_log_dirs ::
  "('a, 'd, 'o) start \<Rightarrow> sys \<Rightarrow> ('d, 'o) fs_watch list \<Rightarrow>
     int + sys \<times> ('d, 'o) fs_watch list" where
  "detect_log_dirs E s v =
     (if \<not> opendir_ok E then Inl 1 else Inr (detect_log_dirs_loop E s v (readdir_entries E)))"

definition append_queue_watcher ::
  "('a, 'd, 'o) start \<Rightarrow> ('d, 'o) fs_watch list \<Rightarrow> nd_err \<times> ('d, 'o) fs_watch list" where
  "append_queue_watcher E v =
     (case init (queue_func E) of
        None \<Rightarrow> (ND_ALLOC, v)
      | Some d \<Rightarrow>
          (ND_SUCCESS,
           v @ [\<lparr>wtype = WATCH_QUEUE, dir_name = None, file_name = None, watch_dir = - 1,
                  fd = - 1, buf = replicate (sizeof_buf E) NUL, buffered = 0,
                  skip = DO_NOT_SKIP, func = queue_func E, data = d, time = 0\<rparr>]))"

definition append_ratelimit_aggregator ::
  "('a, 'd, 'o) start \<Rightarrow> ('a, 'd, 'o) fs_watch_aggregator list \<Rightarrow>
     nd_err \<times> ('a, 'd, 'o) fs_watch_aggregator list" where
  "append_ratelimit_aggregator E v =
     (case a_init (ratelimitspp_func E) of
        None \<Rightarrow> (ND_ALLOC, v)
      | Some d \<Rightarrow>
          (ND_SUCCESS,
           v @ [\<lparr>a_type = WATCH_LOG_FILE, a_func = ratelimitspp_func E, a_data = d,
                  a_time = 0\<rparr>]))"

text \<open>The two loops that print the headers and take the time, from the first item on.\<close>

fun print_hdr_watchers ::
  "nat \<Rightarrow> ('d, 'o) fs_watch list \<Rightarrow> 'o \<Rightarrow> ('d, 'o) fs_watch list \<times> 'o" where
  "print_hdr_watchers now [] out = ([], out)"
| "print_hdr_watchers now (watch # ws) out =
     (case print_hdr (func watch) (dir_name watch) out of
        (r, out1) \<Rightarrow>
          (case print_hdr_watchers now ws out1 of
             (ws1, out2) \<Rightarrow> (watch\<lparr>time := now\<rparr> # ws1, out2)))"

fun print_hdr_aggregators ::
  "nat \<Rightarrow> ('a, 'd, 'o) fs_watch_aggregator list \<Rightarrow> 'o \<Rightarrow>
     ('a, 'd, 'o) fs_watch_aggregator list \<times> 'o" where
  "print_hdr_aggregators now [] out = ([], out)"
| "print_hdr_aggregators now (aggregator # ags) out =
     (case a_print_hdr (a_func aggregator) out of
        (r, out1) \<Rightarrow>
          (case print_hdr_aggregators now ags out1 of
             (ags1, out2) \<Rightarrow> (aggregator\<lparr>a_time := now\<rparr> # ags1, out2)))"

text \<open>
  \<open>main\<close> up to its loop: \<open>Inl 1\<close> where it calls \<open>exit(1)\<close>, else the state with which
  the loop starts. The results of \<open>append_queue_watcher\<close> and
  \<open>append_ratelimit_aggregator\<close> are not looked at, as in the source. \<open>atoi\<close> of the
  first argument only sets the period of the timer.
\<close>

definition main_start ::
  "('a, 'd, 'o) start \<Rightarrow> sys \<Rightarrow> nat \<Rightarrow> 'o \<Rightarrow> int + ('a, 'd, 'o) plugin" where
  "main_start E s now out =
     (let path = (if 2 < length (argv E) then argv E ! 2 else DEFAULT_PATH)
      in if chdir_result E path = - 1 then Inl 1
         else (case prepare_timer_fd (timerfd_result E) of
                 Inl c \<Rightarrow> Inl c
               | Inr timer_fd \<Rightarrow>
           (case prepare_signal_fd (signalfd_result E) of
              Inl c \<Rightarrow> Inl c
            | Inr signal_fd \<Rightarrow>
           (case prepare_fs_event_fd (inotify_init1_result E) of
              Inl c \<Rightarrow> Inl c
            | Inr fs_event_fd \<Rightarrow>
           (case detect_log_dirs E s [] of
              Inl c \<Rightarrow> Inl c
            | Inr (s1, v1) \<Rightarrow>
                (let v2 = snd (append_queue_watcher E v1)
                 in if v2 = [] then Inl 1
                    else (let ags = snd (append_ratelimit_aggregator E []);
                              (v3, out1) = print_hdr_watchers now v2 out;
                              (ags1, out2) = print_hdr_aggregators now ags out1
                          in Inr \<lparr>os = s1, clock = now, stdout = out2, vector_watchers = v3,
                                   vector_aggregators = ags1, run = True\<rparr>)))))))"

text \<open>
  \<open>main\<close>: its exit code, or \<open>None\<close> when it does not return. After the loop it frees
  and closes what it holds and returns 0.
\<close>

definition main ::
  "('a, 'd, 'o) start \<Rightarrow> sys \<Rightarrow> nat \<Rightarrow> 'o \<Rightarrow> wakeup list \<Rightarrow> int option" where
  "main E s now out wakeups =
     (case main_start E s now out of
        Inl c \<Rightarrow> Some c
      | Inr st \<Rightarrow>
          (case event_loop st wakeups of
             None \<Rightarrow> None
           | Some (Inl c) \<Rightarrow> Some c
           | Some (Inr st') \<Rightarrow> Some 0))"

text \<open>One pass of the loop over the aggregators up to \<open>print\<close>, for the proofs.\<close>

definition emit :: "('a, 'd, 'o) plugin \<Rightarrow> nat \<Rightarrow> ('a, 'd, 'o) fs_watch_aggregator \<times> int \<times> 'o" where
  "emit st i =
     (let aggregator = vector_aggregators st ! i;
          aggregator1 = (case a_postprocess (a_func aggregator) of
                           None \<Rightarrow> aggregator
                         | Some pp \<Rightarrow> aggregator\<lparr>a_data := pp (a_data aggregator)\<rparr>);
          aggregator2 = aggregator1\<lparr>a_time := clock st\<rparr>
      in (aggregator2,
          a_print (a_func aggregator2) (a_data aggregator2) (clock st - a_time aggregator1)
            (stdout st)))"

lemma aggregators_loop_unfold:
  "aggregators_loop st i =
     (if i < length (vector_aggregators st)
      then (case emit st i of
              (aggregator2, rc, out) \<Rightarrow>
                if rc \<noteq> 0
                then st\<lparr>stdout := out,
                        vector_aggregators := (vector_aggregators st)[i := aggregator2],
                        run := False\<rparr>
                else aggregators_loop
                       (st\<lparr>stdout := out,
                           vector_aggregators := (vector_aggregators st)
                             [i := aggregator2\<lparr>a_data :=
                                    a_clear (a_func aggregator2) (a_data aggregator2)\<rparr>]\<rparr>)
                       (i + 1))
      else st)"
  by (subst aggregators_loop.simps) (simp add: emit_def update_timestamp_def Let_def split_beta)

lemma aggregators_loop_run: "\<not> run st \<Longrightarrow> \<not> run (aggregators_loop st i)"
proof (induction "length (vector_aggregators st) - i" arbitrary: st i)
  case 0
  then show ?case
    by (subst aggregators_loop_unfold) simp
next
  case (Suc n)
  obtain aggregator2 rc out where e: "emit st i = (aggregator2, rc, out)"
    by (cases "emit st i") auto
  from Suc.hyps(2) have lt: "i < length (vector_aggregators st)" by simp
  show ?case
  proof (cases "rc \<noteq> 0")
    case True
    with lt e show ?thesis
      by (subst aggregators_loop_unfold) simp
  next
    case False
    define st' where "st' = st\<lparr>stdout := out,
        vector_aggregators := (vector_aggregators st)
          [i := aggregator2\<lparr>a_data := a_clear (a_func aggregator2) (a_data aggregator2)\<rparr>]\<rparr>"
    have "n = length (vector_aggregators st') - (i + 1)"
      using Suc.hyps(2) by (simp add: st'_def)
    moreover have "\<not> run st'"
      using Suc.prems by (simp add: st'_def)
    ultimately have "\<not> run (aggregators_loop st' (i + 1))"
      by (rule Suc.hyps(1))
    with lt e False show ?thesis
      by (subst aggregators_loop_unfold) (simp add: st'_def)
  qed
qed

lemma event_loop_stopped: "\<not> run st \<Longrightarrow> event_loop st wks = Some (Inr st)"
  by (cases wks) simp_all

lemma print_hdr_watchers_Nil: "fst (print_hdr_watchers now ws out) = [] \<longleftrightarrow> ws = []"
  by (cases ws) (auto split: prod.splits)

lemma main_start_Inl: "main_start E s now out = Inl c \<Longrightarrow> c = 1"
  by (auto simp: main_start_def Let_def prepare_timer_fd_def prepare_signal_fd_def
      prepare_fs_event_fd_def detect_log_dirs_def split: if_splits sum.splits prod.splits)

lemma main_start_Inr:
  assumes "main_start E s now out = Inr st"
  shows "run st \<and> vector_watchers st \<noteq> []"
  using assms
  by (auto simp: main_start_def Let_def split_beta print_hdr_watchers_Nil
      split: if_splits sum.splits)

lemma first_print_fails:
  assumes "vector_watchers st \<noteq> []"
    and "\<forall>n d t out. fst (print (func (vector_watchers st ! 0)) n d t out) \<noteq> 0"
  shows "\<exists>st'. watchers_loop st 0 = Some st' \<and> \<not> run st'"
proof -
  obtain s1 watch3 ags i1 rc out where wp: "watch_pass st 0 = (s1, watch3, ags, i1, rc, out)"
    by (cases "watch_pass st 0") auto
  from watch_pass_facts(4) [OF wp] assms(2) have "rc \<noteq> 0" by auto
  with assms(1) wp show ?thesis
    by (subst watchers_loop_unfold) simp
qed

text \<open>
  A start of \<open>main\<close> in a directory with the one log directory \<open>send\<close>, all of whose
  collectors are \<open>f\<close>; a collector whose \<open>print\<close> fails; the files before any descriptor
  is open; an aggregator whose \<open>print\<close> fails; and returns of \<open>poll\<close>: one for the
  timer, one for the signal, one that times out, one whose first read of the inotify
  descriptor fails, and one, with the timer ready too, whose read fails after the event
  of a created file \<open>current\<close> has been read.
\<close>

definition demo_start ::
  "(nat, (string \<times> nat) list) stat_func \<Rightarrow> (nat, nat, (string \<times> nat) list) start" where
  "demo_start f = \<lparr>argv = [''qmail.plugin'', ''1''], chdir_result = (\<lambda>p. 0),
     timerfd_result = 3, signalfd_result = 4, inotify_init1_result = 5, opendir_ok = True,
     readdir_entries = [(''.'', 1), (''..'', 1), (''send'', 1)],
     inotify_add_watch_result = (\<lambda>d. 1), sizeof_buf = 16,
     send_func = f, smtp_func = f, queue_func = f, ratelimitspp_func = sum_func\<rparr>"

definition broken_sink_func :: "(nat, (string \<times> nat) list) stat_func" where
  "broken_sink_func = count_func\<lparr>print := (\<lambda>n d t out. (1, out))\<rparr>"

definition boot_sys :: sys where
  "boot_sys = two_logs\<lparr>fds := []\<rparr>"

definition timer_wakeup :: wakeup where
  "timer_wakeup = \<lparr>wk_world = (\<lambda>s. s), wk_clock = 20, wk_poll = Poll_ready False False True,
     wk_inotify = []\<rparr>"

definition signal_wakeup :: wakeup where
  "signal_wakeup = \<lparr>wk_world = (\<lambda>s. s), wk_clock = 20, wk_poll = Poll_ready True False False,
     wk_inotify = []\<rparr>"

definition idle_wakeup :: wakeup where
  "idle_wakeup = \<lparr>wk_world = (\<lambda>s. s), wk_clock = 10, wk_poll = Poll_timeout, wk_inotify = []\<rparr>"

definition failing_inotify_wakeup :: wakeup where
  "failing_inotify_wakeup = \<lparr>wk_world = (\<lambda>s. s), wk_clock = 30,
     wk_poll = Poll_ready False True False, wk_inotify = [IN_fail EIO]\<rparr>"

definition late_failing_inotify_wakeup :: wakeup where
  "late_failing_inotify_wakeup = \<lparr>wk_world = (\<lambda>s. s), wk_clock = 30,
     wk_poll = Poll_ready False True True,
     wk_inotify = [IN_events [\<lparr>ev_wd = 1, ev_len = 16, ev_name = ''current''\<rparr>],
                   IN_fail EIO]\<rparr>"

definition broken_sink_aggr :: "(nat, nat, (string \<times> nat) list) aggr_func" where
  "broken_sink_aggr = sum_func\<lparr>a_print := (\<lambda>d t out. (1, out))\<rparr>"

lemma main_start_failures:
  assumes "chdir_result E (if 2 < length (argv E) then argv E ! 2 else DEFAULT_PATH) = - 1 \<or>
           timerfd_result E = - 1 \<or> signalfd_result E = - 1 \<or> inotify_init1_result E = - 1 \<or>
           \<not> opendir_ok E \<or>
           (snd (detect_log_dirs_loop E s [] (readdir_entries E)) = [] \<and> init (queue_func E) = None)"
  shows "main_start E s now out = Inl 1"
  using assms
  by (auto simp: main_start_def Let_def prepare_timer_fd_def prepare_signal_fd_def
      prepare_fs_event_fd_def detect_log_dirs_def append_queue_watcher_def
      split: sum.splits prod.splits)

lemma process_fs_event_queue_Inl:
  "process_fs_event_queue rs s watchers = Some (Inl c) \<Longrightarrow> c = 1"
  by (induction rs s watchers rule: process_fs_event_queue.induct)
     (auto split: if_splits option.splits)

lemma wakeup_body_Inl: "wakeup_body st w = Some (Inl c) \<Longrightarrow> c = 1"
  by (auto simp: wakeup_body_def Let_def dest: process_fs_event_queue_Inl
      split: poll_result.splits if_splits option.splits sum.splits prod.splits)

lemma event_loop_Inl: "event_loop st ws = Some (Inl c) \<Longrightarrow> c = 1"
proof (induction ws arbitrary: st)
  case Nil
  then show ?case by (simp split: if_splits)
next
  case (Cons w ws)
  show ?case
  proof (cases "run st")
    case False
    with Cons.prems show ?thesis by simp
  next
    case True
    show ?thesis
    proof (cases "wakeup_body st w")
      case None
      with True Cons.prems show ?thesis by simp
    next
      case (Some r)
      show ?thesis
      proof (cases r)
        case (Inl c')
        with Some True Cons.prems wakeup_body_Inl [of st w c'] show ?thesis by simp
      next
        case (Inr st1)
        with Some True Cons.prems Cons.IH [of st1] show ?thesis by simp
      qed
    qed
  qed
qed

lemma event_loop_after:
  "after_wakeups st pre = Some st1 \<Longrightarrow> event_loop st (pre @ ws) = event_loop st1 ws"
proof (induction pre arbitrary: st)
  case Nil
  then show ?case by simp
next
  case (Cons w pre)
  from Cons.prems have r: "run st"
    by (simp split: if_splits)
  from Cons.prems r obtain st2 where b: "wakeup_body st w = Some (Inr st2)"
    and a: "after_wakeups st2 pre = Some st1"
    by (auto split: option.splits sum.splits)
  from Cons.IH [OF a] r b show ?case by simp
qed

lemma wakeup_body_signal:
  "wk_poll w = Poll_ready True fs tm \<Longrightarrow> \<exists>st'. wakeup_body st w = Some (Inr st') \<and> \<not> run st'"
  by (simp add: wakeup_body_def Let_def)

lemma wakeup_body_print_fails:
  assumes "wk_poll w = Poll_ready False False True" and "vector_watchers st \<noteq> []"
    and "\<forall>n d t out. fst (print (func (vector_watchers st ! 0)) n d t out) \<noteq> 0"
  shows "\<exists>st'. wakeup_body st w = Some (Inr st') \<and> \<not> run st'"
proof -
  define st0 where "st0 = st\<lparr>os := wk_world w (os st), clock := wk_clock w\<rparr>"
  have "\<exists>st'. watchers_loop st0 0 = Some st' \<and> \<not> run st'"
    by (rule first_print_fails) (use assms in \<open>simp_all add: st0_def\<close>)
  then obtain st1 where w1: "watchers_loop st0 0 = Some st1" and r1: "\<not> run st1"
    by auto
  have ic: "interval_cycle st0 = Some (aggregators_loop st1 0)"
    using w1 by (simp add: interval_cycle_def)
  have "st0\<lparr>os := os st0, vector_watchers := vector_watchers st0\<rparr> = st0"
    by simp
  with assms(1) ic have "wakeup_body st w = Some (Inr (aggregators_loop st1 0))"
    by (simp add: wakeup_body_def Let_def st0_def [symmetric])
  with aggregators_loop_run [OF r1, of 0] show ?thesis by simp
qed

lemma wakeup_body_inotify_fails:
  "wk_poll w = Poll_ready False True tm \<Longrightarrow> wk_inotify w = IN_fail e # rs \<Longrightarrow> e \<noteq> EAGAIN \<Longrightarrow>
     wakeup_body st w = Some (Inl 1)"
  by (simp add: wakeup_body_def Let_def)

lemma event_loop_ends:
  "run st \<Longrightarrow> wakeup_body st w = Some (Inr st') \<Longrightarrow> \<not> run st' \<Longrightarrow>
     event_loop st (w # ws) = Some (Inr st')"
  by (simp add: event_loop_stopped)

text \<open>
  Claim C6, as amended. \<open>main\<close> ends with exit code 1 when its start fails: a failing
  \<open>chdir\<close>, a timer, signal or inotify descriptor that cannot be set up, a failing
  \<open>opendir\<close>, or an empty registry of watches; and when, at any wake-up of its loop, a
  read of the inotify descriptor fails with another error than \<open>EAGAIN\<close>, the only
  call of \<open>exit\<close> in the loop. It returns 0 whenever its loop ends, at any wake-up: after
  the termination signal, and also after a \<open>print\<close> of a watch or of an aggregator that
  returned non-zero, which only clears \<open>run\<close>. It has no other exit code. The wake-ups
  \<open>pre\<close> are those that the loop has gone through before.
\<close>

theorem exit_code_of_main:
  fixes st :: "('a, 'd, 'o) plugin"
  shows
   "(chdir_result E (if 2 < length (argv E) then argv E ! 2 else DEFAULT_PATH) = - 1 \<longrightarrow>
       main E s now out wakeups = Some 1) \<and>
    (timerfd_result E = - 1 \<longrightarrow> main E s now out wakeups = Some 1) \<and>
    (signalfd_result E = - 1 \<longrightarrow> main E s now out wakeups = Some 1) \<and>
    (inotify_init1_result E = - 1 \<longrightarrow> main E s now out wakeups = Some 1) \<and>
    (\<not> opendir_ok E \<longrightarrow> main E s now out wakeups = Some 1) \<and>
    (snd (detect_log_dirs_loop E s [] (readdir_entries E)) = [] \<and> init (queue_func E) = None \<longrightarrow>
       main E s now out wakeups = Some 1) \<and>
    (main_start E s now out = Inr st \<and> after_wakeups st pre = Some st1 \<and> run st1 \<and>
     wk_poll w = Poll_ready False True tm \<and> wk_inotify w = IN_fail e # rs \<and> e \<noteq> EAGAIN \<longrightarrow>
       main E s now out (pre @ w # wakeups) = Some 1) \<and>
    (main_start E s now out = Inr st \<and> after_wakeups st pre = Some st1 \<and> run st1 \<and>
     wk_poll w = Poll_ready True fs tm \<longrightarrow>
       main E s now out (pre @ w # wakeups) = Some 0) \<and>
    (main_start E s now out = Inr st \<and> after_wakeups st pre = Some st1 \<and> run st1 \<and>
     wk_poll w = Poll_ready False False True \<and> vector_watchers st1 \<noteq> [] \<and>
     (\<forall>n d t out. fst (print (func (vector_watchers st1 ! 0)) n d t out) \<noteq> 0) \<longrightarrow>
       main E s now out (pre @ w # wakeups) = Some 0) \<and>
    (main_start E s now out = Inr st \<and> after_wakeups st pre = Some st1 \<and> run st1 \<and>
     wakeup_body st1 w = Some (Inl code) \<longrightarrow>
       main E s now out (pre @ w # wakeups) = Some 1) \<and>
    (main_start E s now out = Inr st \<and> after_wakeups st pre = Some st1 \<and> run st1 \<and>
     wakeup_body st1 w = Some (Inr st2) \<and> \<not> run st2 \<longrightarrow>
       main E s now out (pre @ w # wakeups) = Some 0) \<and>
    (main_start E s now out = Inr st \<and> event_loop st wakeups = Some (Inr st') \<longrightarrow>
       main E s now out wakeups = Some 0) \<and>
    (main E s now out wakeups = Some c \<longrightarrow> c = 0 \<or> c = 1)"
proof -
  have fail: "main E s now out wakeups = Some 1"
    if "chdir_result E (if 2 < length (argv E) then argv E ! 2 else DEFAULT_PATH) = - 1 \<or>
        timerfd_result E = - 1 \<or> signalfd_result E = - 1 \<or> inotify_init1_result E = - 1 \<or>
        \<not> opendir_ok E \<or>
        (snd (detect_log_dirs_loop E s [] (readdir_entries E)) = [] \<and> init (queue_func E) = None)"
    using main_start_failures [OF that, of now out] by (simp add: main_def)
  have at: "main E s now out (pre @ w # wakeups) =
        (case event_loop st1 (w # wakeups) of None \<Rightarrow> None | Some (Inl c) \<Rightarrow> Some c
         | Some (Inr st') \<Rightarrow> Some 0)"
    if "main_start E s now out = Inr st" "after_wakeups st pre = Some st1"
    using that event_loop_after [of st pre st1 "w # wakeups"] by (simp add: main_def)
  have g: "main E s now out (pre @ w # wakeups) = Some 1"
    if "main_start E s now out = Inr st \<and> after_wakeups st pre = Some st1 \<and> run st1 \<and>
     wk_poll w = Poll_ready False True tm \<and> wk_inotify w = IN_fail e # rs \<and> e \<noteq> EAGAIN"
  proof -
    from that have "wakeup_body st1 w = Some (Inl 1)"
      by (intro wakeup_body_inotify_fails) auto
    with that at show ?thesis by simp
  qed
  have h: "main E s now out (pre @ w # wakeups) = Some 0"
    if "main_start E s now out = Inr st \<and> after_wakeups st pre = Some st1 \<and> run st1 \<and>
     wk_poll w = Poll_ready True fs tm"
  proof -
    from that wakeup_body_signal [of w fs tm st1] obtain st' where
      "wakeup_body st1 w = Some (Inr st')" "\<not> run st'" by auto
    with that have "event_loop st1 (w # wakeups) = Some (Inr st')"
      by (intro event_loop_ends) auto
    with that at show ?thesis by simp
  qed
  have i: "main E s now out (pre @ w # wakeups) = Some 0"
    if "main_start E s now out = Inr st \<and> after_wakeups st pre = Some st1 \<and> run st1 \<and>
     wk_poll w = Poll_ready False False True \<and> vector_watchers st1 \<noteq> [] \<and>
     (\<forall>n d t out. fst (print (func (vector_watchers st1 ! 0)) n d t out) \<noteq> 0)"
  proof -
    from that have "\<exists>st'. wakeup_body st1 w = Some (Inr st') \<and> \<not> run st'"
      by (intro wakeup_body_print_fails) auto
    then obtain st' where "wakeup_body st1 w = Some (Inr st')" "\<not> run st'" by auto
    with that have "event_loop st1 (w # wakeups) = Some (Inr st')"
      by (intro event_loop_ends) auto
    with that at show ?thesis by simp
  qed
  have g1: "main E s now out (pre @ w # wakeups) = Some 1"
    if "main_start E s now out = Inr st \<and> after_wakeups st pre = Some st1 \<and> run st1 \<and>
     wakeup_body st1 w = Some (Inl code)"
    using that at wakeup_body_Inl [of st1 w code] by simp
  have g0: "main E s now out (pre @ w # wakeups) = Some 0"
    if "main_start E s now out = Inr st \<and> after_wakeups st pre = Some st1 \<and> run st1 \<and>
     wakeup_body st1 w = Some (Inr st2) \<and> \<not> run st2"
  proof -
    from that have "event_loop st1 (w # wakeups) = Some (Inr st2)"
      by (intro event_loop_ends) auto
    with that at show ?thesis by simp
  qed
  have j: "main E s now out wakeups = Some 0"
    if "main_start E s now out = Inr st \<and> event_loop st wakeups = Some (Inr st')"
    using that by (simp add: main_def)
  have k: "c = 0 \<or> c = 1" if "main E s now out wakeups = Some c"
    using that main_start_Inl [of E s now out] event_loop_Inl
    by (auto simp: main_def split: sum.splits option.splits)
  from fail g h i g1 g0 j k show ?thesis
    by blast
qed

theorem exit_code_of_main_witness:
  "main ((demo_start count_func)\<lparr>chdir_result := (\<lambda>p. - 1)\<rparr>) boot_sys 0 [] [] = Some 1 \<and>
   main ((demo_start count_func)\<lparr>timerfd_result := - 1\<rparr>) boot_sys 0 [] [] = Some 1 \<and>
   main ((demo_start count_func)\<lparr>signalfd_result := - 1\<rparr>) boot_sys 0 [] [] = Some 1 \<and>
   main ((demo_start count_func)\<lparr>inotify_init1_result := - 1\<rparr>) boot_sys 0 [] [] = Some 1 \<and>
   main ((demo_start count_func)\<lparr>opendir_ok := False\<rparr>) boot_sys 0 [] [] = Some 1 \<and>
   main ((demo_start count_func)\<lparr>readdir_entries := [],
           queue_func := count_func\<lparr>init := None\<rparr>\<rparr>) boot_sys 0 [] [] = Some 1 \<and>
   main (demo_start count_func) boot_sys 0 [] [timer_wakeup, failing_inotify_wakeup] = Some 1 \<and>
   main (demo_start count_func) boot_sys 0 [] [timer_wakeup, signal_wakeup] = Some 0 \<and>
   main (demo_start broken_sink_func) boot_sys 0 [] [idle_wakeup, timer_wakeup] = Some 0 \<and>
   main (demo_start count_func) boot_sys 0 [] [timer_wakeup, late_failing_inotify_wakeup] =
     Some 1 \<and>
   main ((demo_start count_func)\<lparr>ratelimitspp_func := broken_sink_aggr\<rparr>) boot_sys 0 []
     [idle_wakeup, timer_wakeup] = Some 0"
proof -
  let ?E = "demo_start count_func"
  let ?B = "demo_start broken_sink_func"
  let ?Q = "(demo_start count_func)\<lparr>readdir_entries := [],
              queue_func := count_func\<lparr>init := None\<rparr>\<rparr>"
  let ?out = "[] :: (string \<times> nat) list"
  let ?st = "projr (main_start ?E boot_sys 0 ?out)"
  let ?sb = "projr (main_start ?B boot_sys 0 ?out)"
  let ?st1 = "the (after_wakeups ?st [timer_wakeup])"
  let ?sb1 = "the (after_wakeups ?sb [idle_wakeup])"
  have "\<not> isl (main_start ?E boot_sys 0 ?out)" by code_simp
  then have ms: "main_start ?E boot_sys 0 ?out = Inr ?st" by simp
  have "\<not> isl (main_start ?B boot_sys 0 ?out)" by code_simp
  then have mb: "main_start ?B boot_sys 0 ?out = Inr ?sb" by simp
  have "after_wakeups ?st [timer_wakeup] \<noteq> None" by code_simp
  then have a1: "after_wakeups ?st [timer_wakeup] = Some ?st1" by simp
  have r1: "run ?st1" by code_simp
  have rb0: "run ?sb" and nb0: "vector_watchers ?sb \<noteq> []"
    using main_start_Inr [OF mb] by simp_all
  have b1: "after_wakeups ?sb [idle_wakeup] = Some ?sb1"
    using rb0 by (simp add: wakeup_body_def idle_wakeup_def)
  have sb1: "?sb1 = ?sb\<lparr>os := os ?sb, clock := 10\<rparr>"
    using rb0 by (simp add: wakeup_body_def idle_wakeup_def)
  have rb: "run ?sb1" and nb: "vector_watchers ?sb1 \<noteq> []"
    unfolding sb1 using rb0 nb0 by simp_all
  have "func (vector_watchers ?sb ! 0) = broken_sink_func"
    by (simp add: main_start_def demo_start_def boot_sys_def two_logs_def Let_def
      prepare_timer_fd_def prepare_signal_fd_def prepare_fs_event_fd_def detect_log_dirs_def
      prepare_watcher_def sys_open_def sys_lseek_end_def fd_lookup_def file_bytes_def
      append_queue_watcher_def append_ratelimit_aggregator_def DEFAULT_PATH_def
      broken_sink_func_def count_func_def sum_func_def)
  then have fb: "func (vector_watchers ?sb1 ! 0) = broken_sink_func"
    unfolding sb1 by simp
  have pf: "\<forall>n d t out. fst (print (func (vector_watchers ?sb1 ! 0)) n d t out) \<noteq> 0"
    unfolding fb by (simp add: broken_sink_func_def)
  have q: "snd (detect_log_dirs_loop ?Q boot_sys [] (readdir_entries ?Q)) = [] \<and>
           init (queue_func ?Q) = None"
    by (simp add: demo_start_def)
  have c1: "chdir_result (?E\<lparr>chdir_result := (\<lambda>p. - 1)\<rparr>)
              (if 2 < length (argv (?E\<lparr>chdir_result := (\<lambda>p. - 1)\<rparr>))
               then argv (?E\<lparr>chdir_result := (\<lambda>p. - 1)\<rparr>) ! 2 else DEFAULT_PATH) = - 1"
    by simp
  note t = exit_code_of_main [where s = boot_sys and now = 0 and out = ?out]
  have a: "main (?E\<lparr>chdir_result := (\<lambda>p. - 1)\<rparr>) boot_sys 0 ?out [] = Some 1"
    using t [where E = "?E\<lparr>chdir_result := (\<lambda>p. - 1)\<rparr>" and wakeups = "[]"] c1 by blast
  have b: "main (?E\<lparr>timerfd_result := - 1\<rparr>) boot_sys 0 ?out [] = Some 1"
    using t [where E = "?E\<lparr>timerfd_result := - 1\<rparr>" and wakeups = "[]"] by simp
  have c: "main (?E\<lparr>signalfd_result := - 1\<rparr>) boot_sys 0 ?out [] = Some 1"
    using t [where E = "?E\<lparr>signalfd_result := - 1\<rparr>" and wakeups = "[]"] by simp
  have d: "main (?E\<lparr>inotify_init1_result := - 1\<rparr>) boot_sys 0 ?out [] = Some 1"
    using t [where E = "?E\<lparr>inotify_init1_result := - 1\<rparr>" and wakeups = "[]"] by simp
  have e: "main (?E\<lparr>opendir_ok := False\<rparr>) boot_sys 0 ?out [] = Some 1"
    using t [where E = "?E\<lparr>opendir_ok := False\<rparr>" and wakeups = "[]"] by simp
  have f: "main ?Q boot_sys 0 ?out [] = Some 1"
    using t [where E = ?Q and wakeups = "[]"] q by blast
  have g: "main ?E boot_sys 0 ?out ([timer_wakeup] @ failing_inotify_wakeup # []) = Some 1"
    using t [where E = ?E and st = ?st and pre = "[timer_wakeup]" and ?st1.0 = ?st1
        and w = failing_inotify_wakeup and tm = False and e = EIO and rs = "[]"
        and wakeups = "[]"] ms a1 r1
    by (simp add: failing_inotify_wakeup_def)
  have h: "main ?E boot_sys 0 ?out ([timer_wakeup] @ signal_wakeup # []) = Some 0"
    using t [where E = ?E and st = ?st and pre = "[timer_wakeup]" and ?st1.0 = ?st1
        and w = signal_wakeup and fs = False and tm = False and wakeups = "[]"] ms a1 r1
    by (simp add: signal_wakeup_def)
  have i: "main ?B boot_sys 0 ?out ([idle_wakeup] @ timer_wakeup # []) = Some 0"
    using t [where E = ?B and st = ?sb and pre = "[idle_wakeup]" and ?st1.0 = ?sb1
        and w = timer_wakeup and wakeups = "[]"] mb b1 rb nb pf
    by (simp add: timer_wakeup_def)
  let ?A = "(demo_start count_func)\<lparr>ratelimitspp_func := broken_sink_aggr\<rparr>"
  let ?sa = "projr (main_start ?A boot_sys 0 ?out)"
  let ?sa1 = "the (after_wakeups ?sa [idle_wakeup])"
  let ?sa2 = "projr (the (wakeup_body ?sa1 timer_wakeup))"
  have "\<not> isl (main_start ?A boot_sys 0 ?out)" by code_simp
  then have ma: "main_start ?A boot_sys 0 ?out = Inr ?sa" by simp
  have "after_wakeups ?sa [idle_wakeup] \<noteq> None" by code_simp
  then have aa: "after_wakeups ?sa [idle_wakeup] = Some ?sa1" by simp
  have ra: "run ?sa1" by code_simp
  have "wakeup_body ?sa1 timer_wakeup \<noteq> None" "\<not> isl (the (wakeup_body ?sa1 timer_wakeup))"
    by code_simp+
  then have wa: "wakeup_body ?sa1 timer_wakeup = Some (Inr ?sa2)" by auto
  have na: "\<not> run ?sa2" by code_simp
  have "wakeup_body ?st1 late_failing_inotify_wakeup \<noteq> None"
    "isl (the (wakeup_body ?st1 late_failing_inotify_wakeup))"
    by code_simp+
  then have wl: "wakeup_body ?st1 late_failing_inotify_wakeup =
      Some (Inl (projl (the (wakeup_body ?st1 late_failing_inotify_wakeup))))"
    by auto
  have l: "main ?E boot_sys 0 ?out ([timer_wakeup] @ late_failing_inotify_wakeup # []) = Some 1"
    using t [where E = ?E and st = ?st and pre = "[timer_wakeup]" and ?st1.0 = ?st1
        and w = late_failing_inotify_wakeup
        and code = "projl (the (wakeup_body ?st1 late_failing_inotify_wakeup))"
        and wakeups = "[]"] ms a1 r1 wl
    by blast
  have m: "main ?A boot_sys 0 ?out ([idle_wakeup] @ timer_wakeup # []) = Some 0"
    using t [where E = ?A and st = ?sa and pre = "[idle_wakeup]" and ?st1.0 = ?sa1
        and w = timer_wakeup and ?st2.0 = ?sa2 and wakeups = "[]"] ma aa ra wa na
    by blast
  from a b c d e f g h i l m show ?thesis by simp
qed

text \<open>
  Claim C6 as stated fails: here the first \<open>print\<close> of the first interval cycle returns
  1, the loop ends, and the exit code of \<open>main\<close> is 0, not 1.
\<close>

theorem sink_failure_exits_zero:
  "fst (print (send_func (demo_start broken_sink_func)) (Some ''send'') 0 20 []) = 1 \<and>
   main (demo_start broken_sink_func) boot_sys 0 [] [timer_wakeup] = Some 0"
  by code_simp

end
